theory Spec2Isabelle
  imports Main "HOL-Library.AList" "HOL-Library.Word"
begin

section \<open>Data model of \<open>main.go\<close>\<close>

text \<open>
  \<^verbatim>\<open>type nodeId struct { traceID string; spanID string }\<close> and
  \<^verbatim>\<open>type nodeDetails struct { parentID, name, type_, service, result string; transaction bool }\<close>.
\<close>

record nodeId =
  traceID :: string
  spanID :: string

record nodeDetails =
  parentID :: string
  name :: string
  type_ :: string
  service :: string
  result :: string
  transaction :: bool

text \<open>
  A value of \<^verbatim>\<open>map[nodeId]nodeDetails\<close> is enumerated by \<^verbatim>\<open>range\<close> in an order
  that Go leaves unspecified. An enumeration is a list of key/value pairs with pairwise
  different keys; the lemmas on the tree builder hold for every such list.
\<close>

type_synonym nodes = "(nodeId \<times> nodeDetails) list"

subsection \<open>The \<open>gotree\<close> objects\<close>

text \<open>
  \<^verbatim>\<open>gotree.Tree\<close> is an interface value: \<^verbatim>\<open>nil\<close> or a pointer to a tree object that
  holds its text and the list of its children. \<^verbatim>\<open>AddTree\<close> mutates the object it is
  called on, and \<^verbatim>\<open>main\<close> compares trees by pointer (\<^verbatim>\<open>parentNode == root\<close>), so the
  objects live in an explicit store: a pointer is an index into the list of all objects
  allocated so far, \<open>None\<close> is \<^verbatim>\<open>nil\<close>.
\<close>

type_synonym Tree = "nat option"

record tree =
  tree_text :: string
  tree_items :: "Tree list"

type_synonym store = "tree list"

text \<open>
  \<^verbatim>\<open>gotree.New(text)\<close>: a fresh object with no children. The result is never
  \<^verbatim>\<open>nil\<close>, so it is returned as a pointer and becomes \<open>Some\<close> where it is stored
  as a \<open>Tree\<close>.
\<close>

definition gotree_New :: "string \<Rightarrow> store \<Rightarrow> nat \<times> store" where
  "gotree_New txt h = (length h, h @ [\<lparr>tree_text = txt, tree_items = []\<rparr>])"

text \<open>
  \<^verbatim>\<open>t.AddTree(c)\<close> appends \<open>c\<close> to the children of the object at \<open>p\<close>. The receiver is
  never \<^verbatim>\<open>nil\<close> in \<^verbatim>\<open>main\<close>; the pointers there all come from \<^verbatim>\<open>gotree.New\<close>.
\<close>

definition AddTree :: "nat \<Rightarrow> Tree \<Rightarrow> store \<Rightarrow> store" where
  "AddTree p c h =
     (if p < length h then h[p := (h ! p)\<lparr>tree_items := tree_items (h ! p) @ [c]\<rparr>] else h)"

text \<open>
  \<^verbatim>\<open>t.Items()\<close> and the text of a tree value. A pointer outside the store does not
  occur; the functions are made total by the empty list.
\<close>

definition Items :: "store \<Rightarrow> Tree \<Rightarrow> Tree list" where
  "Items h t = (case t of None \<Rightarrow> [] | Some p \<Rightarrow> if p < length h then tree_items (h ! p) else [])"

definition Text :: "store \<Rightarrow> Tree \<Rightarrow> string" where
  "Text h t = (case t of None \<Rightarrow> [] | Some p \<Rightarrow> if p < length h then tree_text (h ! p) else [])"

section \<open>The tree builder (\<open>main\<close>, lines 102 to 130)\<close>

text \<open>
  Lines 108 to 114. \<open>CyanString\<close> stands for \<^verbatim>\<open>color.CyanString\<close> of the colour library,
  which is not part of the repository.
\<close>

definition nodeText :: "(string \<Rightarrow> string) \<Rightarrow> nodeDetails \<Rightarrow> string" where
  "nodeText CyanString node =
     (let t0 = name node @ '' ('' @ service node @ '')'';
          t1 = (if result node \<noteq> [] then t0 @ '' => '' @ result node else t0)
      in if transaction node then CyanString t1 else t1)"

text \<open>
  First loop (lines 107 to 116): one fresh tree object per record, stored in \<open>treeNodes\<close>
  under the record's identity. \<open>treeNodes\<close> is a Go map whose lookup yields \<^verbatim>\<open>nil\<close> for
  an absent key: a function to \<open>Tree\<close>.
\<close>

fun mkNodes :: "(string \<Rightarrow> string) \<Rightarrow> nodes \<Rightarrow> (nodeId \<Rightarrow> Tree) \<Rightarrow> store
    \<Rightarrow> (nodeId \<Rightarrow> Tree) \<times> store" where
  "mkNodes CyanString [] treeNodes h = (treeNodes, h)"
| "mkNodes CyanString ((nid, node) # rest) treeNodes h =
     (case gotree_New (nodeText CyanString node) h of
        (t, h') \<Rightarrow> mkNodes CyanString rest (treeNodes(nid := Some t)) h')"

text \<open>The key of a record's parent: the record's own trace, the parent's span.\<close>

definition parentKey :: "nodeId \<Rightarrow> nodeDetails \<Rightarrow> nodeId" where
  "parentKey nid node = \<lparr>traceID = traceID nid, spanID = parentID node\<rparr>"

text \<open>
  Lines 126 to 129 for one record once \<open>parentNode\<close> is settled: the child is added and
  the identity is appended to \<open>rootTransactions\<close> when the parent is the root object.
\<close>

definition addChild :: "nat \<Rightarrow> nat \<Rightarrow> (nodeId \<Rightarrow> Tree) \<Rightarrow> nodeId \<Rightarrow> nodeDetails
    \<Rightarrow> store \<times> nodeId list \<Rightarrow> store \<times> nodeId list" where
  "addChild root parentNode treeNodes nid node acc =
     (case acc of (h, rootTransactions) \<Rightarrow>
        (AddTree parentNode (treeNodes nid) h,
         if transaction node \<and> parentNode = root then rootTransactions @ [nid]
         else rootTransactions))"

text \<open>
  Second loop (lines 117 to 130). \<open>None\<close> is \<^verbatim>\<open>continue queryNodes\<close>: with
  \<open>recentRequest\<close> the first record whose parent is not in \<open>treeNodes\<close> abandons the
  build. Without it the record goes under \<open>orphaned\<close>.
\<close>

fun attach :: "bool \<Rightarrow> nat \<Rightarrow> nat \<Rightarrow> (nodeId \<Rightarrow> Tree) \<Rightarrow> nodes
    \<Rightarrow> store \<times> nodeId list \<Rightarrow> (store \<times> nodeId list) option" where
  "attach recentRequest root orphaned treeNodes [] acc = Some acc"
| "attach recentRequest root orphaned treeNodes ((nid, node) # rest) acc =
     (case treeNodes (parentKey nid node) of
        None \<Rightarrow>
          if recentRequest then None
          else attach recentRequest root orphaned treeNodes rest
                 (addChild root orphaned treeNodes nid node acc)
      | Some parentNode \<Rightarrow>
          attach recentRequest root orphaned treeNodes rest
            (addChild root parentNode treeNodes nid node acc))"

text \<open>
  What one completed build leaves behind: the store, the map \<open>treeNodes\<close>, the two
  distinguished objects and the root transactions in the order they were found.
\<close>

record built =
  b_store :: store
  b_treeNodes :: "nodeId \<Rightarrow> Tree"
  b_root :: nat
  b_orphaned :: nat
  b_rootTransactions :: "nodeId list"

text \<open>
  Lines 102 to 130. \<open>trace\<close> is the global \<^verbatim>\<open>traceID\<close>; \<open>RedString\<close> and \<open>CyanString\<close>
  are the colour library's functions. The two \<^verbatim>\<open>range\<close> loops may enumerate the map
  in different orders, \<open>nodes1\<close> and \<open>nodes2\<close>. Each cycle allocates its objects afresh
  and keeps no pointer into an earlier cycle, so a build starts on an empty store.
\<close>

definition build :: "(string \<Rightarrow> string) \<Rightarrow> (string \<Rightarrow> string) \<Rightarrow> string \<Rightarrow> bool
    \<Rightarrow> nodes \<Rightarrow> nodes \<Rightarrow> built option" where
  "build RedString CyanString trace recentRequest nodes1 nodes2 =
     (case gotree_New [] [] of (root, h1) \<Rightarrow>
     (case gotree_New (RedString ''<orphaned>'') h1 of (orphaned, h2) \<Rightarrow>
     (case mkNodes CyanString nodes1
             ((\<lambda>k. None)(\<lparr>traceID = trace, spanID = []\<rparr> := Some root)) h2 of
        (treeNodes, h3) \<Rightarrow>
     (case attach recentRequest root orphaned treeNodes nodes2 (h3, []) of
        None \<Rightarrow> None
      | Some (h4, rootTransactions) \<Rightarrow>
          Some \<lparr>b_store = h4, b_treeNodes = treeNodes, b_root = root,
                b_orphaned = orphaned, b_rootTransactions = rootTransactions\<rparr>))))"

section \<open>The record source: \<open>fetchTrace\<close> (lines 233 to 312)\<close>

text \<open>
  The decoded \<^verbatim>\<open>_source\<close> of a hit (the local \<^verbatim>\<open>type source struct\<close>): \<open>Span\<close> and
  \<open>Transaction\<close> are pointers, \<^verbatim>\<open>nil\<close> when the document has no such object.
\<close>

record span_src =
  span_HexID :: string
  span_Name :: string
  span_Type :: string

record transaction_src =
  txn_ID :: string
  txn_Name :: string
  txn_Type :: string
  txn_Result :: string

record source =
  src_Service :: string
  src_Trace :: string
  src_Parent :: string
  src_Span :: "span_src option"
  src_Transaction :: "transaction_src option"

text \<open>
  A hit either fails in \<^verbatim>\<open>json.Unmarshal\<close> or decodes to a \<open>source\<close>. A hit that
  carries no \<^verbatim>\<open>_source\<close> at all, where line 285 dereferences \<^verbatim>\<open>nil\<close>, is left out of
  the model.
\<close>

datatype hit = Malformed | Doc source

text \<open>
  One response of the multi-search: \<^verbatim>\<open>response.Error\<close> (its reason when present),
  \<^verbatim>\<open>hits.TotalHits\<close> (an \<^verbatim>\<open>int64\<close>) and \<^verbatim>\<open>hits.Hits\<close>.
\<close>

record response =
  resp_Error :: "string option"
  resp_TotalHits :: "64 word"
  resp_Hits :: "hit list"

text \<open>
  The ways \<open>fetchTrace\<close> ends without a record set: the four error returns and the
  \<^verbatim>\<open>panic("no transaction or span in doc")\<close>, which ends the process as well.
\<close>

datatype error =
    QueryError string
  | ResponseError string
  | TooManyHits
  | UnmarshalError
  | Panic

text \<open>Lines 284 to 307: the identity and the details read from one hit.\<close>

definition hitNode :: "hit \<Rightarrow> error + (nodeId \<times> nodeDetails)" where
  "hitNode h =
     (case h of
        Malformed \<Rightarrow> Inl UnmarshalError
      | Doc src \<Rightarrow>
          (case src_Span src of
             Some sp \<Rightarrow>
               Inr (\<lparr>traceID = src_Trace src, spanID = span_HexID sp\<rparr>,
                    \<lparr>parentID = src_Parent src, name = span_Name sp, type_ = span_Type sp,
                     service = src_Service src, result = [], transaction = False\<rparr>)
           | None \<Rightarrow>
               (case src_Transaction src of
                  Some tx \<Rightarrow>
                    Inr (\<lparr>traceID = src_Trace src, spanID = txn_ID tx\<rparr>,
                         \<lparr>parentID = src_Parent src, name = txn_Name tx, type_ = txn_Type tx,
                          service = src_Service src, result = txn_Result tx,
                          transaction = True\<rparr>)
                | None \<Rightarrow> Inl Panic)))"

text \<open>
  Lines 283 to 309. The map \<open>nodes\<close> is kept as an association list with one entry per
  key; \<^verbatim>\<open>nodes[nodeId] = nodeDetails\<close> replaces the entry of a key that is already there.
\<close>

fun addHits :: "hit list \<Rightarrow> nodes \<Rightarrow> error + nodes" where
  "addHits [] m = Inr m"
| "addHits (h # hs) m =
     (case hitNode h of
        Inl e \<Rightarrow> Inl e
      | Inr (k, v) \<Rightarrow> addHits hs (AList.update k v m))"

text \<open>Lines 274 to 310.\<close>

fun addResponses :: "response list \<Rightarrow> nodes \<Rightarrow> error + nodes" where
  "addResponses [] m = Inr m"
| "addResponses (r # rs) m =
     (case resp_Error r of
        Some reason \<Rightarrow> Inl (ResponseError reason)
      | None \<Rightarrow>
          if sint (resp_TotalHits r) > int (length (resp_Hits r)) then Inl TooManyHits
          else (case addHits (resp_Hits r) m of
                  Inl e \<Rightarrow> Inl e
                | Inr m' \<Rightarrow> addResponses rs m'))"

text \<open>
  \<open>fetchTrace\<close> applied to what the search backend answered: \<open>Inl\<close> when the request
  itself failed, the responses otherwise.
\<close>

definition fetchTrace :: "string + response list \<Rightarrow> error + nodes" where
  "fetchTrace reply =
     (case reply of
        Inl e \<Rightarrow> Inl (QueryError e)
      | Inr responses \<Rightarrow> addResponses responses [])"

section \<open>The polling controller (\<open>main\<close>, lines 80 to 143)\<close>

text \<open>
  What lies outside the program: the colour functions, the trace identifier that
  \<open>doRequest\<close> leaves in \<^verbatim>\<open>traceID\<close>, the answer of the backend to the \<open>k\<close>-th query and
  the time that query takes. Times are nanoseconds, as \<^verbatim>\<open>time.Duration\<close>.
\<close>

record world =
  w_RedString :: "string \<Rightarrow> string"
  w_CyanString :: "string \<Rightarrow> string"
  w_requestTrace :: string
  w_msearch :: "nat \<Rightarrow> string + response list"
  w_elapsed :: "nat \<Rightarrow> nat"

text \<open>
  What the run does that can be observed, in order: a sleep (the clock when it starts,
  its length), the \<open>k\<close>-th call of \<open>fetchTrace\<close>, a build abandoned by
  \<^verbatim>\<open>continue queryNodes\<close>, and the output of lines 131 to 139 (the root transactions
  printed, and the children of \<open>orphaned\<close>, printed when there are any).
\<close>

datatype event =
    Sleep int int
  | Fetch nat
  | Restart
  | Render "nodeId list" "Tree list"

record state =
  now :: int
  fetched :: nat
  lastNodeCount :: nat
  events :: "event list"

text \<open>
  How \<open>main\<close> ends: the usage exit of line 55, \<^verbatim>\<open>log.Fatal(err)\<close> of line 94 (or the
  panic), the \<^verbatim>\<open>return\<close> of line 87 and the \<^verbatim>\<open>break\<close> of line 141.
\<close>

datatype outcome = UsageExit | Fatal error | DeadlineReturn | Done

definition second :: int where
  "second = 1000000000"

text \<open>
  The loops of lines 81 to 143. Both the end of the outer body and
  \<^verbatim>\<open>continue queryNodes\<close> lead to the top of the inner loop, so one step of the function
  is one pass of the inner loop (lines 85 to 99), followed, when the count has changed,
  by the rest of the outer body. The inner loop need not end: the function counts its
  passes down from \<open>fuel\<close>, and \<open>None\<close> says that the run is still going after that
  many. Building and printing take no time on the model's clock. The list that
  \<open>fetchTrace\<close> returns stands for the map, and both \<^verbatim>\<open>range\<close> loops of the build
  enumerate it in the order of that list; the statements on \<open>build\<close> itself hold for
  every pair of orders.
\<close>

fun main_loop :: "world \<Rightarrow> string \<Rightarrow> bool \<Rightarrow> int \<Rightarrow> nat \<Rightarrow> state
    \<Rightarrow> (outcome \<times> state) option" where
  "main_loop w trace recentRequest deadline 0 s = None"
| "main_loop w trace recentRequest deadline (Suc fuel) s =
     (if recentRequest \<and> \<not> now s < deadline then Some (DeadlineReturn, s)
      else
        let s1 = (if recentRequest
                  then s\<lparr>now := now s + 5 * second,
                         events := events s @ [Sleep (now s) (5 * second)]\<rparr>
                  else s);
            k = fetched s1;
            s2 = s1\<lparr>now := now s1 + int (w_elapsed w k), fetched := Suc k,
                    events := events s1 @ [Fetch k]\<rparr>
        in case fetchTrace (w_msearch w k) of
             Inl err \<Rightarrow> Some (Fatal err, s2)
           | Inr nodes \<Rightarrow>
               if length nodes = lastNodeCount s2
               then main_loop w trace recentRequest deadline fuel s2
               else
                 let s3 = s2\<lparr>lastNodeCount := length nodes\<rparr>
                 in (case build (w_RedString w) (w_CyanString w) trace recentRequest
                            nodes nodes of
                       None \<Rightarrow>
                         main_loop w trace recentRequest deadline fuel
                           (s3\<lparr>events := events s3 @ [Restart]\<rparr>)
                     | Some b \<Rightarrow>
                         let s4 = s3\<lparr>events := events s3 @
                                    [Render (b_rootTransactions b)
                                       (Items (b_store b) (Some (b_orphaned b)))]\<rparr>
                         in if \<not> recentRequest then Some (Done, s4)
                            else main_loop w trace recentRequest deadline fuel s4))"

text \<open>
  Lines 52 to 80: \<open>nargs\<close> is \<^verbatim>\<open>len(args)\<close>, \<open>traceFlag\<close> the value of \<^verbatim>\<open>-trace\<close>,
  \<open>pollDuration\<close> the value of \<^verbatim>\<open>-d\<close> and \<open>start\<close> the clock when the deadline is
  computed. With a URL argument the run polls the trace of its own request until the
  deadline; with \<^verbatim>\<open>-trace\<close> alone it looks the given trace up. The three
  \<^verbatim>\<open>log.Fatal\<close> exits that come before the loop (the value of \<^verbatim>\<open>-kibana\<close> or the
  argument does not parse, lines 59 to 62 and 70 to 73; the request of \<open>doRequest\<close>
  fails, lines 152 to 155) are left out of the model: a run is followed from the point
  where they have been passed.
\<close>

definition main :: "world \<Rightarrow> nat \<Rightarrow> string \<Rightarrow> int \<Rightarrow> int \<Rightarrow> nat
    \<Rightarrow> (outcome \<times> state) option" where
  "main w nargs traceFlag pollDuration start fuel =
     (let s0 = \<lparr>now = start, fetched = 0, lastNodeCount = 0, events = []\<rparr>
      in if nargs \<noteq> 1 \<and> traceFlag = [] then Some (UsageExit, s0)
         else if nargs = 1
              then main_loop w (w_requestTrace w) True (start + pollDuration) fuel s0
              else main_loop w traceFlag False 0 fuel s0)"

section \<open>Vocabulary for the properties of the tree builder\<close>

text \<open>The object the first loop allocates for a record.\<close>

definition newCell :: "(string \<Rightarrow> string) \<Rightarrow> nodeId \<times> nodeDetails \<Rightarrow> tree" where
  "newCell CyanString x = \<lparr>tree_text = nodeText CyanString (snd x), tree_items = []\<rparr>"

text \<open>
  The object that receives a record in the second loop: the object \<open>treeNodes\<close> holds
  for the parent's key, \<open>orphaned\<close> when the lookup yields \<^verbatim>\<open>nil\<close>.
\<close>

definition target :: "nat \<Rightarrow> (nodeId \<Rightarrow> Tree) \<Rightarrow> nodeId \<times> nodeDetails \<Rightarrow> nat" where
  "target orphaned treeNodes x =
     (case treeNodes (parentKey (fst x) (snd x)) of None \<Rightarrow> orphaned | Some p \<Rightarrow> p)"

text \<open>The key under which line 106 stores the root.\<close>

definition rootKey :: "string \<Rightarrow> nodeId" where
  "rootKey trace = \<lparr>traceID = trace, spanID = []\<rparr>"

text \<open>
  Two enumerations of one Go map: the same entries, each key once, in any two orders.
\<close>

definition enumerates :: "nodes \<Rightarrow> nodes \<Rightarrow> bool" where
  "enumerates nodes1 nodes2 =
     (distinct (map fst nodes1) \<and> distinct (map fst nodes2) \<and> set nodes1 = set nodes2)"

text \<open>
  \<open>reach h a c\<close>: the object \<open>c\<close> is \<open>a\<close> or is found from \<open>a\<close> by following children,
  which is what printing the tree at \<open>a\<close> visits.
\<close>

inductive reach :: "store \<Rightarrow> nat \<Rightarrow> nat \<Rightarrow> bool" for h a where
  reach_self: "reach h a a"
| reach_child: "reach h a p \<Longrightarrow> Some c \<in> set (Items h (Some p)) \<Longrightarrow> reach h a c"

text \<open>
  \<open>anchored trace ns nid\<close>: following the parent references from the record \<open>nid\<close>
  through records of \<open>ns\<close> arrives at the key of the root.
\<close>

inductive anchored :: "string \<Rightarrow> nodes \<Rightarrow> nodeId \<Rightarrow> bool" for trace ns where
  anchored_root:
    "(nid, node) \<in> set ns \<Longrightarrow> parentKey nid node = rootKey trace \<Longrightarrow> anchored trace ns nid"
| anchored_child:
    "(nid, node) \<in> set ns \<Longrightarrow> anchored trace ns (parentKey nid node) \<Longrightarrow> anchored trace ns nid"

text \<open>The store after lines 103 and 104, and \<open>treeNodes\<close> after the first loop.\<close>

definition store0 :: "(string \<Rightarrow> string) \<Rightarrow> store" where
  "store0 R = [\<lparr>tree_text = [], tree_items = []\<rparr>,
               \<lparr>tree_text = R ''<orphaned>'', tree_items = []\<rparr>]"

definition treeNodes1 :: "(string \<Rightarrow> string) \<Rightarrow> (string \<Rightarrow> string) \<Rightarrow> string \<Rightarrow> nodes
    \<Rightarrow> nodeId \<Rightarrow> Tree" where
  "treeNodes1 R C trace ns1 =
     fst (mkNodes C ns1 ((\<lambda>k. None)(rootKey trace := Some 0)) (store0 R))"

section \<open>Vocabulary for the properties of the controller\<close>

text \<open>The number of times lines 131 to 139 have run.\<close>

fun is_Render :: "event \<Rightarrow> bool" where
  "is_Render (Render rts os) = True"
| "is_Render e = False"

definition renders :: "event list \<Rightarrow> nat" where
  "renders es = length (filter is_Render es)"

text \<open>
  \<open>sleeps_ok deadline es\<close>: in \<open>es\<close> every fetch comes directly after a sleep of five
  seconds that began before the deadline, and every sleep is directly followed by a
  fetch. In particular no fetch follows a \<open>Restart\<close> or a \<open>Render\<close> directly.
\<close>

fun sleeps_ok :: "int \<Rightarrow> event list \<Rightarrow> bool" where
  "sleeps_ok deadline [] = True"
| "sleeps_ok deadline (Sleep t d # Fetch k # es) =
     (t < deadline \<and> d = 5 * second \<and> sleeps_ok deadline es)"
| "sleeps_ok deadline (Restart # es) = sleeps_ok deadline es"
| "sleeps_ok deadline (Render rts os # es) = sleeps_ok deadline es"
| "sleeps_ok deadline es = False"

text \<open>
  The state after the sleep (with \<open>recentRequest\<close>) and the call of \<open>fetchTrace\<close> of
  one pass, and the state after lines 131 to 139.
\<close>

definition after_fetch :: "world \<Rightarrow> bool \<Rightarrow> state \<Rightarrow> state" where
  "after_fetch w recentRequest s =
     s\<lparr>now := now s + (if recentRequest then 5 * second else 0)
                 + int (w_elapsed w (fetched s)),
       fetched := Suc (fetched s),
       events := events s @ (if recentRequest then [Sleep (now s) (5 * second)] else [])
                   @ [Fetch (fetched s)]\<rparr>"

definition after_render :: "built \<Rightarrow> state \<Rightarrow> state" where
  "after_render b s =
     s\<lparr>events := events s @
          [Render (b_rootTransactions b) (Items (b_store b) (Some (b_orphaned b)))]\<rparr>"

section \<open>Concrete inputs\<close>

text \<open>
  A record with the given trace, span, parent, name, result and kind, and a colour
  function that leaves a visible mark.
\<close>

definition mkRecord :: "string \<Rightarrow> string \<Rightarrow> string \<Rightarrow> string \<Rightarrow> string \<Rightarrow> bool
    \<Rightarrow> nodeId \<times> nodeDetails" where
  "mkRecord tr sp par nm res txn =
     (\<lparr>traceID = tr, spanID = sp\<rparr>,
      \<lparr>parentID = par, name = nm, type_ = ''request'', service = ''svc-a'', result = res,
       transaction = txn\<rparr>)"

definition mark :: "string \<Rightarrow> string" where
  "mark s = ''<'' @ s @ ''>''"

definition ex_trace :: nodes where
  "ex_trace = [mkRecord ''T'' ''t1'' [] ''op1'' ''200'' True,
               mkRecord ''T'' ''s1'' ''t1'' ''db'' [] False]"

definition ex_trace_rev :: nodes where
  "ex_trace_rev = [mkRecord ''T'' ''s1'' ''t1'' ''db'' [] False,
                   mkRecord ''T'' ''t1'' [] ''op1'' ''200'' True]"

text \<open>
  Record sets: a span that names itself as its parent, two spans that name each other, a
  root transaction of another trace than the one queried, a transaction of another
  trace whose own span identifier is empty, and a transaction of the queried trace with
  an empty span identifier next to a span with an empty parent.
\<close>

definition ex_self :: nodes where
  "ex_self = [mkRecord ''T'' ''a'' ''a'' ''loop'' [] False]"

definition ex_cycle :: nodes where
  "ex_cycle = [mkRecord ''T'' ''a'' ''b'' ''ping'' [] False,
               mkRecord ''T'' ''b'' ''a'' ''pong'' [] False]"

definition ex_foreign :: nodes where
  "ex_foreign = [mkRecord ''U'' ''u1'' [] ''other'' [] True]"

definition ex_foreign_root :: nodes where
  "ex_foreign_root = [mkRecord ''U'' [] [] ''odd'' [] True]"

definition ex_root_keyed :: nodes where
  "ex_root_keyed = [mkRecord ''T'' [] [] ''odd'' [] True,
                    mkRecord ''T'' ''c'' [] ''kid'' [] False]"

text \<open>
  The result of the build for trace \<open>T\<close> without \<open>recentRequest\<close>, which always
  completes (lemma \<open>build_one_shot\<close>), both loops enumerating \<open>ns\<close> in its order.
\<close>

definition built_of :: "nodes \<Rightarrow> built" where
  "built_of ns = the (build mark mark ''T'' False ns ns)"

text \<open>
  Backends: a response that holds all its hits, a transaction document and a span
  document; a backend with no document of the trace, one where the span \<open>s1\<close> is
  indexed before its parent transaction \<open>t1\<close>, and one that reports 10001 hits and
  returns one.
\<close>

definition resp :: "hit list \<Rightarrow> response" where
  "resp hs = \<lparr>resp_Error = None, resp_TotalHits = of_nat (length hs), resp_Hits = hs\<rparr>"

definition txnDoc :: "string \<Rightarrow> string \<Rightarrow> string \<Rightarrow> string \<Rightarrow> string \<Rightarrow> hit" where
  "txnDoc tr sp par nm res =
     Doc \<lparr>src_Service = ''svc-a'', src_Trace = tr, src_Parent = par, src_Span = None,
          src_Transaction =
            Some \<lparr>txn_ID = sp, txn_Name = nm, txn_Type = ''request'', txn_Result = res\<rparr>\<rparr>"

definition spanDoc :: "string \<Rightarrow> string \<Rightarrow> string \<Rightarrow> string \<Rightarrow> hit" where
  "spanDoc tr sp par nm =
     Doc \<lparr>src_Service = ''svc-a'', src_Trace = tr, src_Parent = par,
          src_Span = Some \<lparr>span_HexID = sp, span_Name = nm, span_Type = ''db''\<rparr>,
          src_Transaction = None\<rparr>"

definition w_no_hits :: world where
  "w_no_hits = \<lparr>w_RedString = mark, w_CyanString = mark, w_requestTrace = ''T'',
                w_msearch = (\<lambda>k. Inr [resp [], resp []]), w_elapsed = (\<lambda>k. 0)\<rparr>"

definition w_late_parent :: world where
  "w_late_parent = \<lparr>w_RedString = mark, w_CyanString = mark, w_requestTrace = ''T'',
     w_msearch = (\<lambda>k. if k = 0 then Inr [resp [], resp [spanDoc ''T'' ''s1'' ''t1'' ''db'']]
                       else Inr [resp [txnDoc ''T'' ''t1'' [] ''op1'' ''200''],
                                 resp [spanDoc ''T'' ''s1'' ''t1'' ''db'']]),
     w_elapsed = (\<lambda>k. 0)\<rparr>"

definition w_truncated :: world where
  "w_truncated = \<lparr>w_RedString = mark, w_CyanString = mark, w_requestTrace = ''T'',
     w_msearch = (\<lambda>k. Inr [\<lparr>resp_Error = None, resp_TotalHits = 10001,
                               resp_Hits = [txnDoc ''T'' ''t1'' [] ''op1'' ''200'']\<rparr>,
                             resp []]),
     w_elapsed = (\<lambda>k. 0)\<rparr>"


section \<open>Lemmas on the tree builder\<close>

lemma mkNodes_Cons:
  "mkNodes C (x # rest) tn h =
     mkNodes C rest (tn(fst x := Some (length h))) (h @ [newCell C x])"
  by (cases x) (simp add: gotree_New_def newCell_def)

lemma attach_Cons:
  "attach rr root orph tn (x # rest) acc =
     (case tn (parentKey (fst x) (snd x)) of
        None \<Rightarrow> if rr then None
                else attach rr root orph tn rest (addChild root orph tn (fst x) (snd x) acc)
      | Some p \<Rightarrow> attach rr root orph tn rest (addChild root p tn (fst x) (snd x) acc))"
  by (cases x) (simp split: option.splits)

lemma addChild_eq:
  "addChild root p tn nid node acc =
     (AddTree p (tn nid) (fst acc),
      if transaction node \<and> p = root then snd acc @ [nid] else snd acc)"
  by (cases acc) (simp add: addChild_def)

lemma mkNodes_store:
  "snd (mkNodes C ns tn h) = h @ map (newCell C) ns"
  by (induction ns arbitrary: tn h) (simp_all add: mkNodes_Cons)

lemma mkNodes_other:
  "k \<notin> fst ` set ns \<Longrightarrow> fst (mkNodes C ns tn h) k = tn k"
  by (induction ns arbitrary: tn h) (simp_all add: mkNodes_Cons)

lemma mkNodes_key:
  "distinct (map fst ns) \<Longrightarrow> i < length ns \<Longrightarrow>
   fst (mkNodes C ns tn h) (fst (ns ! i)) = Some (length h + i)"
proof (induction ns arbitrary: tn h i)
  case Nil
  then show ?case by simp
next
  case (Cons x rest)
  show ?case
  proof (cases i)
    case 0
    from Cons.prems have "fst x \<notin> fst ` set rest" by auto
    then show ?thesis using 0 by (simp add: mkNodes_Cons mkNodes_other)
  next
    case (Suc j)
    with Cons.prems have "distinct (map fst rest)" "j < length rest" by auto
    from Cons.IH [OF this] show ?thesis using Suc by (simp add: mkNodes_Cons)
  qed
qed

lemma mkNodes_range:
  "fst (mkNodes C ns tn h) k = Some a \<Longrightarrow>
   tn k = Some a \<or> (length h \<le> a \<and> a < length h + length ns)"
proof (induction ns arbitrary: tn h)
  case Nil
  then show ?case by simp
next
  case (Cons x rest)
  from Cons.prems
  have "fst (mkNodes C rest (tn(fst x := Some (length h))) (h @ [newCell C x])) k = Some a"
    by (simp add: mkNodes_Cons)
  from Cons.IH [OF this] show ?case
    by (auto split: if_splits)
qed

lemma length_AddTree [simp]: "length (AddTree p c h) = length h"
  by (simp add: AddTree_def)

lemma nth_AddTree:
  "q < length h \<Longrightarrow>
   AddTree p c h ! q = (if q = p then (h ! q)\<lparr>tree_items := tree_items (h ! q) @ [c]\<rparr> else h ! q)"
  by (simp add: AddTree_def)

lemma attach_Cons_Some:
  assumes "attach rr root orph tn (x # rest) acc = Some acc'"
  shows "attach rr root orph tn rest
           (addChild root (target orph tn x) tn (fst x) (snd x) acc) = Some acc'"
  using assms by (simp add: attach_Cons target_def split: option.splits if_splits)

lemma attach_length:
  "attach rr root orph tn ns acc = Some acc' \<Longrightarrow> length (fst acc') = length (fst acc)"
proof (induction ns arbitrary: acc)
  case Nil
  then show ?case by simp
next
  case (Cons x rest)
  from Cons.IH [OF attach_Cons_Some [OF Cons.prems]] show ?case
    by (simp add: addChild_eq)
qed

lemma attach_text:
  "attach rr root orph tn ns acc = Some acc' \<Longrightarrow> q < length (fst acc) \<Longrightarrow>
   tree_text (fst acc' ! q) = tree_text (fst acc ! q)"
proof (induction ns arbitrary: acc)
  case Nil
  then show ?case by simp
next
  case (Cons x rest)
  from Cons.IH [OF attach_Cons_Some [OF Cons.prems(1)]] Cons.prems(2) show ?case
    by (simp add: addChild_eq nth_AddTree)
qed

lemma attach_items:
  "attach rr root orph tn ns acc = Some acc' \<Longrightarrow> q < length (fst acc) \<Longrightarrow>
   tree_items (fst acc' ! q) =
     tree_items (fst acc ! q) @ map (\<lambda>x. tn (fst x)) (filter (\<lambda>x. target orph tn x = q) ns)"
proof (induction ns arbitrary: acc)
  case Nil
  then show ?case by simp
next
  case (Cons x rest)
  from Cons.IH [OF attach_Cons_Some [OF Cons.prems(1)]] Cons.prems(2) show ?case
    by (simp add: addChild_eq nth_AddTree)
qed

lemma attach_rootTransactions:
  "attach rr root orph tn ns acc = Some acc' \<Longrightarrow>
   snd acc' =
     snd acc @ map fst (filter (\<lambda>x. transaction (snd x) \<and> target orph tn x = root) ns)"
proof (induction ns arbitrary: acc)
  case Nil
  then show ?case by simp
next
  case (Cons x rest)
  from Cons.IH [OF attach_Cons_Some [OF Cons.prems]] show ?case
    by (simp add: addChild_eq)
qed

lemma attach_resolved:
  "attach True root orph tn ns acc = Some r \<Longrightarrow> x \<in> set ns \<Longrightarrow>
   tn (parentKey (fst x) (snd x)) \<noteq> None"
proof (induction ns arbitrary: acc)
  case Nil
  then show ?case by simp
next
  case (Cons y rest)
  show ?case
  proof (cases "x = y")
    case True
    with Cons.prems(1) show ?thesis
      by (simp add: attach_Cons split: option.splits)
  next
    case False
    with Cons.prems(2) have "x \<in> set rest" by simp
    from Cons.IH [OF attach_Cons_Some [OF Cons.prems(1)] this] show ?thesis .
  qed
qed

lemma attach_one_shot: "attach False root orph tn ns acc \<noteq> None"
proof (induction ns arbitrary: acc)
  case Nil
  then show ?case by simp
next
  case (Cons y rest)
  show ?case
    by (cases "tn (parentKey (fst y) (snd y))") (simp_all add: attach_Cons Cons.IH)
qed

lemma attach_polling:
  "(\<forall>x\<in>set ns. tn (parentKey (fst x) (snd x)) \<noteq> None) \<Longrightarrow>
   attach True root orph tn ns acc \<noteq> None"
proof (induction ns arbitrary: acc)
  case Nil
  then show ?case by simp
next
  case (Cons y rest)
  then obtain p where "tn (parentKey (fst y) (snd y)) = Some p" by auto
  moreover from Cons.prems
  have "\<forall>x\<in>set rest. tn (parentKey (fst x) (snd x)) \<noteq> None" by simp
  ultimately show ?case by (simp add: attach_Cons Cons.IH)
qed

lemma attach_unresolved:
  "x \<in> set ns \<Longrightarrow> tn (parentKey (fst x) (snd x)) = None \<Longrightarrow>
   attach True root orph tn ns acc = None"
proof (induction ns arbitrary: acc)
  case Nil
  then show ?case by simp
next
  case (Cons y rest)
  show ?case
  proof (cases "tn (parentKey (fst y) (snd y))")
    case None
    then show ?thesis by (simp add: attach_Cons)
  next
    case (Some p)
    with Cons.prems have "x \<in> set rest" by auto
    from Cons.IH [OF this Cons.prems(2)] Some show ?thesis by (simp add: attach_Cons)
  qed
qed

lemma build_eq:
  "build R C trace rr ns1 ns2 =
     map_option
       (\<lambda>acc. \<lparr>b_store = fst acc, b_treeNodes = treeNodes1 R C trace ns1, b_root = 0,
                b_orphaned = 1, b_rootTransactions = snd acc\<rparr>)
       (attach rr 0 1 (treeNodes1 R C trace ns1) ns2 (store0 R @ map (newCell C) ns1, []))"
  by (auto simp: build_def gotree_New_def rootKey_def split_beta mkNodes_store
        treeNodes1_def store0_def split: option.splits)

lemma build_Some:
  assumes "build R C trace rr ns1 ns2 = Some b"
  shows "b_root b = 0" and "b_orphaned b = 1"
    and "b_treeNodes b = treeNodes1 R C trace ns1"
    and "attach rr 0 1 (b_treeNodes b) ns2 (store0 R @ map (newCell C) ns1, [])
         = Some (b_store b, b_rootTransactions b)"
  using assms by (auto simp: build_eq)


lemma treeNodes1_record:
  assumes "distinct (map fst ns1)" and "i < length ns1"
  shows "treeNodes1 R C trace ns1 (fst (ns1 ! i)) = Some (2 + i)"
  using mkNodes_key [OF assms, of C _ "store0 R"]
  by (simp add: treeNodes1_def store0_def)

lemma treeNodes1_other:
  assumes "k \<notin> fst ` set ns1"
  shows "treeNodes1 R C trace ns1 k = (if k = rootKey trace then Some 0 else None)"
  using mkNodes_other [OF assms, of C _ "store0 R"]
  by (simp add: treeNodes1_def)

lemma treeNodes1_range:
  assumes "treeNodes1 R C trace ns1 k = Some a"
  shows "a = 0 \<or> (2 \<le> a \<and> a < 2 + length ns1)"
  using mkNodes_range [OF assms [unfolded treeNodes1_def]]
  by (auto simp: store0_def split: if_splits)

lemma treeNodes1_root:
  assumes "distinct (map fst ns1)"
  shows "treeNodes1 R C trace ns1 k = Some 0 \<longleftrightarrow>
         k = rootKey trace \<and> rootKey trace \<notin> fst ` set ns1"
proof (cases "k \<in> fst ` set ns1")
  case True
  then obtain i where "i < length ns1" "k = fst (ns1 ! i)"
    by (auto simp: in_set_conv_nth)
  with treeNodes1_record [OF assms, of i R C trace]
  have "treeNodes1 R C trace ns1 k \<noteq> Some 0" by simp
  moreover from True have "\<not> (k = rootKey trace \<and> rootKey trace \<notin> fst ` set ns1)" by blast
  ultimately show ?thesis by blast
next
  case False
  then show ?thesis by (cases "k = rootKey trace") (simp_all add: treeNodes1_other)
qed

lemma treeNodes1_inj:
  assumes d: "distinct (map fst ns1)" and x: "x \<in> set ns1" and y: "y \<in> set ns1"
    and eq: "treeNodes1 R C trace ns1 (fst x) = treeNodes1 R C trace ns1 (fst y)"
  shows "x = y"
proof -
  from x obtain i where i: "i < length ns1" "x = ns1 ! i" by (auto simp: in_set_conv_nth)
  from y obtain j where j: "j < length ns1" "y = ns1 ! j" by (auto simp: in_set_conv_nth)
  from eq treeNodes1_record [OF d i(1), of R C trace] treeNodes1_record [OF d j(1), of R C trace]
  have "i = j" using i j by simp
  with i j show ?thesis by simp
qed

lemma build_length:
  assumes "build R C trace rr ns1 ns2 = Some b"
  shows "length (b_store b) = 2 + length ns1"
  using attach_length [OF build_Some(4) [OF assms]] by (simp add: store0_def)

lemma build_items:
  assumes b: "build R C trace rr ns1 ns2 = Some b" and q: "q < 2 + length ns1"
  shows "tree_items (b_store b ! q) =
           map (\<lambda>x. b_treeNodes b (fst x)) (filter (\<lambda>x. target 1 (b_treeNodes b) x = q) ns2)"
proof -
  have "tree_items ((store0 R @ map (newCell C) ns1) ! q) = []"
    using q by (auto simp: store0_def nth_append nth_Cons newCell_def split: nat.splits)
  with attach_items [OF build_Some(4) [OF b], of q] q show ?thesis
    by (simp add: store0_def)
qed

lemma build_text:
  assumes b: "build R C trace rr ns1 ns2 = Some b" and i: "i < length ns1"
  shows "tree_text (b_store b ! (2 + i)) = nodeText C (snd (ns1 ! i))"
proof -
  have "tree_text ((store0 R @ map (newCell C) ns1) ! (2 + i)) = nodeText C (snd (ns1 ! i))"
    using i by (simp add: store0_def nth_append newCell_def)
  with attach_text [OF build_Some(4) [OF b], of "2 + i"] i show ?thesis
    by (simp add: store0_def)
qed

lemma build_rootTransactions:
  assumes b: "build R C trace rr ns1 ns2 = Some b"
  shows "b_rootTransactions b =
           map fst (filter (\<lambda>x. transaction (snd x) \<and> target 1 (b_treeNodes b) x = 0) ns2)"
  using attach_rootTransactions [OF build_Some(4) [OF b]] by simp

lemma target_range:
  assumes b: "build R C trace rr ns1 ns2 = Some b"
  shows "target 1 (b_treeNodes b) x < 2 + length ns1"
proof (cases "b_treeNodes b (parentKey (fst x) (snd x))")
  case None
  then show ?thesis by (simp add: target_def)
next
  case (Some a)
  with treeNodes1_range [of R C trace ns1 _ a] build_Some(3) [OF b]
  show ?thesis by (auto simp: target_def)
qed

text \<open>The membership lemma: a record's node is among the children of exactly one object.\<close>

lemma build_placed:
  assumes e: "enumerates ns1 ns2" and b: "build R C trace rr ns1 ns2 = Some b"
    and x: "x \<in> set ns1" and q: "q < length (b_store b)"
  shows "b_treeNodes b (fst x) \<in> set (Items (b_store b) (Some q)) \<longleftrightarrow>
         target 1 (b_treeNodes b) x = q"
proof -
  from e have d: "distinct (map fst ns1)" and s: "set ns2 = set ns1"
    by (simp_all add: enumerates_def)
  from q have q': "q < 2 + length ns1" by (simp add: build_length [OF b])
  have tn: "b_treeNodes b = treeNodes1 R C trace ns1" by (rule build_Some(3) [OF b])
  have "b_treeNodes b (fst x) \<in> set (Items (b_store b) (Some q)) \<longleftrightarrow>
        (\<exists>y\<in>set ns1. target 1 (b_treeNodes b) y = q \<and> b_treeNodes b (fst y) = b_treeNodes b (fst x))"
    using q by (simp add: Items_def build_items [OF b q'] s image_iff Bex_def) metis
  also have "\<dots> \<longleftrightarrow> target 1 (b_treeNodes b) x = q"
    using treeNodes1_inj [OF d _ x, of _ R C trace] x unfolding tn by blast
  finally show ?thesis .
qed

lemma build_record_node:
  assumes d: "distinct (map fst ns1)" and b: "build R C trace rr ns1 ns2 = Some b"
    and x: "x \<in> set ns1"
  shows "\<exists>a. b_treeNodes b (fst x) = Some a \<and> 2 \<le> a \<and> a < length (b_store b) \<and>
             tree_text (b_store b ! a) = nodeText C (snd x)"
proof -
  from x obtain i where i: "i < length ns1" "x = ns1 ! i" by (auto simp: in_set_conv_nth)
  have "b_treeNodes b (fst x) = Some (2 + i)"
    using treeNodes1_record [OF d i(1), of R C trace] i(2) build_Some(3) [OF b] by simp
  moreover have "tree_text (b_store b ! (2 + i)) = nodeText C (snd x)"
    using build_text [OF b i(1)] i(2) by simp
  moreover have "2 + i < length (b_store b)" using i(1) by (simp add: build_length [OF b])
  ultimately show ?thesis by simp
qed

lemma build_not_orphaned:
  assumes b: "build R C trace rr ns1 ns2 = Some b"
  shows "b_treeNodes b k \<noteq> Some 1"
  using treeNodes1_range [of R C trace ns1 k 1] build_Some(3) [OF b] by auto

lemma target_orphaned:
  assumes b: "build R C trace rr ns1 ns2 = Some b"
  shows "target 1 (b_treeNodes b) x = 1 \<longleftrightarrow> b_treeNodes b (parentKey (fst x) (snd x)) = None"
  using build_not_orphaned [OF b, of "parentKey (fst x) (snd x)"]
  by (auto simp: target_def split: option.splits)

lemma target_resolved:
  assumes b: "build R C trace rr ns1 ns2 = Some b" and "p \<noteq> 1"
  shows "target 1 (b_treeNodes b) x = p \<longleftrightarrow> b_treeNodes b (parentKey (fst x) (snd x)) = Some p"
  using build_not_orphaned [OF b, of "parentKey (fst x) (snd x)"] assms(2)
  by (auto simp: target_def split: option.splits)

lemma build_one_shot: "build R C trace False ns1 ns2 \<noteq> None"
  by (simp add: build_eq attach_one_shot)

lemma build_polling_None:
  assumes "x \<in> set ns2" and "treeNodes1 R C trace ns1 (parentKey (fst x) (snd x)) = None"
  shows "build R C trace True ns1 ns2 = None"
  using attach_unresolved [of x ns2 "treeNodes1 R C trace ns1" 0 1] assms
  by (simp add: build_eq)

lemma anchored_reach:
  assumes e: "enumerates ns1 ns2" and b: "build R C trace rr ns1 ns2 = Some b"
    and r: "rootKey trace \<notin> fst ` set ns1"
    and a: "anchored trace ns1 nid"
  shows "\<exists>a. b_treeNodes b nid = Some a \<and> reach (b_store b) 0 a"
  using a
proof (induction rule: anchored.induct)
  case (anchored_root nid node)
  from e have d: "distinct (map fst ns1)" by (simp add: enumerates_def)
  from build_record_node [OF d b anchored_root(1)]
  obtain a where a: "b_treeNodes b nid = Some a" "a < length (b_store b)" by auto
  have "b_treeNodes b (parentKey nid node) = Some 0"
    using treeNodes1_root [OF d, of R C trace "rootKey trace"] r anchored_root(2)
      build_Some(3) [OF b] by simp
  then have "target 1 (b_treeNodes b) (nid, node) = 0" by (simp add: target_def)
  moreover have "0 < length (b_store b)" by (simp add: build_length [OF b])
  ultimately have "Some a \<in> set (Items (b_store b) (Some 0))"
    using build_placed [OF e b anchored_root(1), of 0] a by simp
  with reach_self [of "b_store b" 0] have "reach (b_store b) 0 a" by (rule reach_child)
  with a show ?case by simp
next
  case (anchored_child nid node)
  from e have d: "distinct (map fst ns1)" by (simp add: enumerates_def)
  from anchored_child.IH obtain p where p: "b_treeNodes b (parentKey nid node) = Some p"
    "reach (b_store b) 0 p" by auto
  from build_record_node [OF d b anchored_child(1)]
  obtain a where a: "b_treeNodes b nid = Some a" by auto
  from p(1) have t: "target 1 (b_treeNodes b) (nid, node) = p" by (simp add: target_def)
  have "p < length (b_store b)"
    using target_range [OF b, of "(nid, node)"] t by (simp add: build_length [OF b])
  with build_placed [OF e b anchored_child(1), of p] a t
  have "Some a \<in> set (Items (b_store b) (Some p))" by simp
  with p(2) have "reach (b_store b) 0 a" by (rule reach_child)
  with a show ?case by simp
qed

lemma Items_build:
  assumes b: "build R C trace rr ns1 ns2 = Some b"
    and c: "c \<in> set (Items (b_store b) (Some p))"
  shows "\<exists>y\<in>set ns2. c = b_treeNodes b (fst y) \<and> target 1 (b_treeNodes b) y = p"
proof -
  from c have p: "p < length (b_store b)" by (auto simp: Items_def split: if_splits)
  then have "p < 2 + length ns1" by (simp add: build_length [OF b])
  from c p build_items [OF b this] show ?thesis by (auto simp: Items_def)
qed

lemma reach_anchored:
  assumes e: "enumerates ns1 ns2" and b: "build R C trace rr ns1 ns2 = Some b"
    and r: "reach (b_store b) 0 c"
  shows "c = 0 \<or> (\<exists>x\<in>set ns1. b_treeNodes b (fst x) = Some c \<and> anchored trace ns1 (fst x))"
  using r
proof (induction rule: reach.induct)
  case reach_self
  then show ?case by simp
next
  case (reach_child p c)
  from e have d: "distinct (map fst ns1)" and s: "set ns2 = set ns1"
    by (simp_all add: enumerates_def)
  have tn: "b_treeNodes b = treeNodes1 R C trace ns1" by (rule build_Some(3) [OF b])
  from Items_build [OF b reach_child(2)] s
  obtain y where y: "y \<in> set ns1" "Some c = b_treeNodes b (fst y)"
    "target 1 (b_treeNodes b) y = p" by auto
  from reach_child.IH show ?case
  proof
    assume "p = 0"
    with y(3) have "b_treeNodes b (parentKey (fst y) (snd y)) = Some 0"
      using target_resolved [OF b, of 0 y] by simp
    with treeNodes1_root [OF d, of R C trace] have "parentKey (fst y) (snd y) = rootKey trace"
      by (simp add: tn)
    with y(1) have "anchored trace ns1 (fst y)"
      using anchored_root [of "fst y" "snd y" ns1 trace] by simp
    with y show ?thesis by auto
  next
    assume "\<exists>x\<in>set ns1. b_treeNodes b (fst x) = Some p \<and> anchored trace ns1 (fst x)"
    then obtain x where x: "x \<in> set ns1" "b_treeNodes b (fst x) = Some p"
      "anchored trace ns1 (fst x)" by auto
    from build_record_node [OF d b x(1)] x(2) have "p \<noteq> 1" by auto
    with y(3) have pk: "b_treeNodes b (parentKey (fst y) (snd y)) = Some p"
      using target_resolved [OF b, of p y] by simp
    have "parentKey (fst y) (snd y) \<in> fst ` set ns1"
    proof (rule ccontr)
      assume "parentKey (fst y) (snd y) \<notin> fst ` set ns1"
      from treeNodes1_other [OF this, of R C trace] pk have "p = 0"
        by (auto simp: tn split: if_splits)
      with build_record_node [OF d b x(1)] x(2) show False by auto
    qed
    then obtain z where z: "z \<in> set ns1" "fst z = parentKey (fst y) (snd y)" by auto
    with pk x(2) have "treeNodes1 R C trace ns1 (fst z) = treeNodes1 R C trace ns1 (fst x)"
      by (simp add: tn)
    from treeNodes1_inj [OF d z(1) x(1) this] z(2) x(3)
    have "anchored trace ns1 (parentKey (fst y) (snd y))" by simp
    with y(1) have "anchored trace ns1 (fst y)"
      using anchored_child [of "fst y" "snd y" ns1 trace] by simp
    with y show ?thesis by auto
  qed
qed

lemma build_the:
  "build R C trace False ns1 ns2 = Some (the (build R C trace False ns1 ns2))"
  using build_one_shot [of R C trace ns1 ns2] by simp

lemma unique_details:
  assumes "distinct (map fst ns)" and "(k, v) \<in> set ns" and "(k, v') \<in> set ns"
  shows "v = v'"
  using assms by (meson eq_key_imp_eq_value)

lemma enumerates_refl: "distinct (map fst ns) \<Longrightarrow> enumerates ns ns"
  by (simp add: enumerates_def)

lemma built_of_Some: "build mark mark ''T'' False ns ns = Some (built_of ns)"
  by (simp add: built_of_def build_the [symmetric])

lemma reach_childless:
  assumes "reach h a c" and "Items h (Some a) = []"
  shows "c = a"
  using assms by (induction rule: reach.induct) auto

lemma build_Items_distinct:
  assumes e: "enumerates ns1 ns2" and b: "build R C trace rr ns1 ns2 = Some b"
  shows "distinct (Items (b_store b) (Some q))"
proof (cases "q < length (b_store b)")
  case False
  then show ?thesis by (simp add: Items_def)
next
  case True
  from e have d: "distinct (map fst ns1)" and d2: "distinct (map fst ns2)"
    and s: "set ns2 = set ns1" by (simp_all add: enumerates_def)
  have tn: "b_treeNodes b = treeNodes1 R C trace ns1" by (rule build_Some(3) [OF b])
  from True have q: "q < 2 + length ns1" by (simp add: build_length [OF b])
  from d2 have "distinct ns2" by (rule distinct_map [THEN iffD1, THEN conjunct1])
  then have "distinct (filter (\<lambda>x. target 1 (b_treeNodes b) x = q) ns2)" by simp
  moreover have "inj_on (\<lambda>x. b_treeNodes b (fst x))
                   (set (filter (\<lambda>x. target 1 (b_treeNodes b) x = q) ns2))"
    unfolding tn using treeNodes1_inj [OF d, of _ _ R C trace] s
    by (auto intro!: inj_onI)
  ultimately show ?thesis using True
    by (simp add: Items_def build_items [OF b q] distinct_map)
qed

lemma ex_trace_enumerates: "enumerates ex_trace ex_trace_rev"
  by (auto simp: enumerates_def ex_trace_def ex_trace_rev_def mkRecord_def)

lemmas ex_eval = build_def gotree_New_def mkRecord_def parentKey_def addChild_def
  AddTree_def Items_def rootKey_def

lemma built_of_ex_self:
  "b_store (built_of ex_self) =
     [\<lparr>tree_text = [], tree_items = []\<rparr>,
      \<lparr>tree_text = ''<<orphaned>>'', tree_items = []\<rparr>,
      \<lparr>tree_text = ''loop (svc-a)'', tree_items = [Some 2]\<rparr>]"
  "b_treeNodes (built_of ex_self) \<lparr>traceID = ''T'', spanID = ''a''\<rparr> = Some 2"
  "b_root (built_of ex_self) = 0" "b_orphaned (built_of ex_self) = 1"
  by (simp_all add: built_of_def ex_self_def ex_eval nodeText_def mark_def)

lemma built_of_ex_cycle:
  "b_store (built_of ex_cycle) =
     [\<lparr>tree_text = [], tree_items = []\<rparr>,
      \<lparr>tree_text = ''<<orphaned>>'', tree_items = []\<rparr>,
      \<lparr>tree_text = ''ping (svc-a)'', tree_items = [Some 3]\<rparr>,
      \<lparr>tree_text = ''pong (svc-a)'', tree_items = [Some 2]\<rparr>]"
  "b_treeNodes (built_of ex_cycle) \<lparr>traceID = ''T'', spanID = ''a''\<rparr> = Some 2"
  "b_treeNodes (built_of ex_cycle) \<lparr>traceID = ''T'', spanID = ''b''\<rparr> = Some 3"
  "b_root (built_of ex_cycle) = 0" "b_orphaned (built_of ex_cycle) = 1"
  by (simp_all add: built_of_def ex_cycle_def ex_eval nodeText_def mark_def)

lemma built_of_ex_foreign:
  "b_store (built_of ex_foreign) =
     [\<lparr>tree_text = [], tree_items = []\<rparr>,
      \<lparr>tree_text = ''<<orphaned>>'', tree_items = [Some 2]\<rparr>,
      \<lparr>tree_text = ''<other (svc-a)>'', tree_items = []\<rparr>]"
  "b_treeNodes (built_of ex_foreign) \<lparr>traceID = ''U'', spanID = ''u1''\<rparr> = Some 2"
  "b_root (built_of ex_foreign) = 0" "b_orphaned (built_of ex_foreign) = 1"
  by (simp_all add: built_of_def ex_foreign_def ex_eval nodeText_def mark_def)

lemma built_of_ex_foreign_root:
  "b_store (built_of ex_foreign_root) =
     [\<lparr>tree_text = [], tree_items = []\<rparr>,
      \<lparr>tree_text = ''<<orphaned>>'', tree_items = []\<rparr>,
      \<lparr>tree_text = ''<odd (svc-a)>'', tree_items = [Some 2]\<rparr>]"
  "b_treeNodes (built_of ex_foreign_root) \<lparr>traceID = ''U'', spanID = []\<rparr> = Some 2"
  "b_root (built_of ex_foreign_root) = 0" "b_orphaned (built_of ex_foreign_root) = 1"
  "build mark mark ''T'' True ex_foreign_root ex_foreign_root \<noteq> None"
  by (simp_all add: built_of_def ex_foreign_root_def ex_eval nodeText_def mark_def)

lemma built_of_ex_trace:
  "b_store (built_of ex_trace) =
     [\<lparr>tree_text = [], tree_items = [Some 2]\<rparr>,
      \<lparr>tree_text = ''<<orphaned>>'', tree_items = []\<rparr>,
      \<lparr>tree_text = ''<op1 (svc-a) => 200>'', tree_items = [Some 3]\<rparr>,
      \<lparr>tree_text = ''db (svc-a)'', tree_items = []\<rparr>]"
  "b_treeNodes (built_of ex_trace) \<lparr>traceID = ''T'', spanID = ''t1''\<rparr> = Some 2"
  "b_treeNodes (built_of ex_trace) \<lparr>traceID = ''T'', spanID = ''s1''\<rparr> = Some 3"
  "b_root (built_of ex_trace) = 0" "b_orphaned (built_of ex_trace) = 1"
  by (simp_all add: built_of_def ex_trace_def ex_eval nodeText_def mark_def)


lemma ex_enumerates:
  "enumerates ex_self ex_self" "enumerates ex_cycle ex_cycle"
  "enumerates ex_foreign ex_foreign" "enumerates ex_trace ex_trace"
  by (simp_all add: enumerates_def ex_self_def ex_cycle_def ex_foreign_def ex_trace_def
        mkRecord_def)

lemma built_of_ex_root_keyed:
  "b_store (built_of ex_root_keyed) =
     [\<lparr>tree_text = [], tree_items = []\<rparr>,
      \<lparr>tree_text = ''<<orphaned>>'', tree_items = []\<rparr>,
      \<lparr>tree_text = ''<odd (svc-a)>'', tree_items = [Some 2, Some 3]\<rparr>,
      \<lparr>tree_text = ''kid (svc-a)'', tree_items = []\<rparr>]"
  "b_treeNodes (built_of ex_root_keyed) \<lparr>traceID = ''T'', spanID = ''c''\<rparr> = Some 3"
  "b_root (built_of ex_root_keyed) = 0" "b_orphaned (built_of ex_root_keyed) = 1"
  by (simp_all add: built_of_def ex_root_keyed_def ex_eval nodeText_def mark_def)

section \<open>Lemmas on the record source and the controller\<close>

lemma main_loop_step:
  "main_loop w trace rr dl (Suc fuel) s =
     (if rr \<and> \<not> now s < dl then Some (DeadlineReturn, s)
      else case fetchTrace (w_msearch w (fetched s)) of
             Inl err \<Rightarrow> Some (Fatal err, after_fetch w rr s)
           | Inr nodes \<Rightarrow>
               if length nodes = lastNodeCount s
               then main_loop w trace rr dl fuel (after_fetch w rr s)
               else (case build (w_RedString w) (w_CyanString w) trace rr nodes nodes of
                       None \<Rightarrow>
                         main_loop w trace rr dl fuel
                           ((after_fetch w rr s)
                              \<lparr>lastNodeCount := length nodes,
                               events := events (after_fetch w rr s) @ [Restart]\<rparr>)
                     | Some b \<Rightarrow>
                         if \<not> rr
                         then Some (Done, after_render b
                                ((after_fetch w rr s)\<lparr>lastNodeCount := length nodes\<rparr>))
                         else main_loop w trace rr dl fuel
                                (after_render b
                                   ((after_fetch w rr s)\<lparr>lastNodeCount := length nodes\<rparr>))))"
  by (simp add: Let_def after_fetch_def after_render_def split: sum.splits option.splits)

lemma one_shot_unchanged_count:
  assumes "\<And>k. fetchTrace (w_msearch w k) = Inr ns" and "lastNodeCount s = length ns"
  shows "main_loop w trace False dl fuel s = None"
  using assms(2)
proof (induction fuel arbitrary: s)
  case 0
  then show ?case by simp
next
  case (Suc fuel)
  have "lastNodeCount (after_fetch w False s) = length ns"
    using Suc.prems by (simp add: after_fetch_def)
  from Suc.IH [OF this] Suc.prems show ?case
    by (simp add: main_loop_step assms(1) del: main_loop.simps)
qed

lemma fetchTrace_no_hits: "fetchTrace (w_msearch w_no_hits k) = Inr []"
  by (simp add: w_no_hits_def fetchTrace_def resp_def)

lemma one_shot_changed_count:
  assumes "fetchTrace (w_msearch w (fetched s)) = Inr ns" and "length ns \<noteq> lastNodeCount s"
  shows "\<exists>b. build (w_RedString w) (w_CyanString w) trace False ns ns = Some b \<and>
             main_loop w trace False dl (Suc fuel) s =
               Some (Done, after_render b ((after_fetch w False s)\<lparr>lastNodeCount := length ns\<rparr>))"
proof -
  obtain b where "build (w_RedString w) (w_CyanString w) trace False ns ns = Some b"
    using build_one_shot [of "w_RedString w" "w_CyanString w" trace ns ns] by auto
  with assms show ?thesis by (simp add: main_loop_step del: main_loop.simps)
qed

lemma late_parent_run:
  "main w_late_parent 1 [] (10 * second) 0 3 =
     Some (DeadlineReturn,
           \<lparr>now = 10 * second, fetched = 2, lastNodeCount = 2,
            events = [Sleep 0 (5 * second), Fetch 0, Restart,
                      Sleep (5 * second) (5 * second), Fetch 1,
                      Render [\<lparr>traceID = ''T'', spanID = ''t1''\<rparr>] []]\<rparr>)"
  by code_simp

lemma no_hits_run:
  "main w_no_hits 1 [] (10 * second) 0 3 =
     Some (DeadlineReturn,
           \<lparr>now = 10 * second, fetched = 2, lastNodeCount = 0,
            events = [Sleep 0 (5 * second), Fetch 0,
                      Sleep (5 * second) (5 * second), Fetch 1]\<rparr>)"
  by code_simp

lemma addHits_Inr_or_Inl: "(\<exists>e. addHits hs m = Inl e) \<or> (\<exists>m'. addHits hs m = Inr m')"
  by (cases "addHits hs m") auto

lemma addResponses_truncated:
  assumes "r \<in> set rs" and "int (length (resp_Hits r)) < sint (resp_TotalHits r)"
  shows "\<exists>e. addResponses rs m = Inl e"
  using assms(1)
proof (induction rs arbitrary: m)
  case Nil
  then show ?case by simp
next
  case (Cons r' rs)
  show ?case
  proof (cases "r = r'")
    case True
    with assms(2) show ?thesis by (simp split: option.splits)
  next
    case False
    with Cons.prems have "r \<in> set rs" by simp
    from Cons.IH [OF this] show ?thesis
      by (simp split: option.splits sum.splits)
  qed
qed

lemma polling_terminates:
  "deadline - now s \<le> int k * (5 * second) \<Longrightarrow>
   main_loop w trace True deadline (Suc k) s \<noteq> None"
proof (induction k arbitrary: s)
  case 0
  then show ?case by simp
next
  case (Suc k)
  have step: "deadline - now s2 \<le> int k * (5 * second)"
    if "now s2 = now (after_fetch w True s)" for s2
    using that Suc.prems by (simp add: after_fetch_def algebra_simps)
  show ?case
    unfolding main_loop_step [of w trace True deadline "Suc k" s]
    using Suc.IH [OF step]
    by (simp add: after_render_def split: sum.splits option.splits del: main_loop.simps)
qed

lemma polling_outcome:
  assumes "main_loop w trace True deadline fuel s = Some (out, s')"
  shows "out = DeadlineReturn \<and> \<not> now s' < deadline \<or> (\<exists>e. out = Fatal e)"
  using assms
proof (induction fuel arbitrary: s)
  case 0
  then show ?case by simp
next
  case (Suc fuel)
  show ?case
  proof (cases "now s < deadline")
    case False
    with Suc.prems show ?thesis by (simp add: main_loop_step del: main_loop.simps)
  next
    case True
    show ?thesis
    proof (cases "fetchTrace (w_msearch w (fetched s))")
      case (Inl err)
      with Suc.prems True show ?thesis
        by (auto simp: main_loop_step simp del: main_loop.simps)
    next
      case (Inr ns)
      from Suc.prems True Inr obtain s3 where
        "main_loop w trace True deadline fuel s3 = Some (out, s')"
        by (auto simp: main_loop_step simp del: main_loop.simps
              split: if_splits option.splits)
      from Suc.IH [OF this] show ?thesis .
    qed
  qed
qed

section \<open>The claims\<close>

subsection \<open>C1\<close>

text \<open>
  C1 (amended). In a completed build every record has a node of its own, and that node
  is a child of exactly one object, once: of \<open>orphaned\<close> exactly when the lookup of its
  parent key fails, and otherwise of the object the parent key resolves to. So no node is
  both in the forest and in the orphan collection, and each record is placed. When no
  record has the key of the root, the node is reachable from the root exactly when the
  record's parent references lead to the root key; nodes whose parent references close a
  cycle are placed under one another and are not reachable from the root.
\<close>

theorem record_placement:
  assumes "enumerates nodes1 nodes2"
    and "build R C trace rr nodes1 nodes2 = Some b"
    and "(nid, node) \<in> set nodes1"
  shows "\<exists>a. b_treeNodes b nid = Some a \<and>
           (\<forall>q. Some a \<in> set (Items (b_store b) (Some q)) \<longleftrightarrow>
                 q = target (b_orphaned b) (b_treeNodes b) (nid, node)) \<and>
           (\<forall>q. distinct (Items (b_store b) (Some q))) \<and>
           (Some a \<in> set (Items (b_store b) (Some (b_orphaned b))) \<longleftrightarrow>
              b_treeNodes b (parentKey nid node) = None) \<and>
           (rootKey trace \<notin> fst ` set nodes1 \<longrightarrow>
              (reach (b_store b) (b_root b) a \<longleftrightarrow> anchored trace nodes1 nid))"
proof -
  from assms(1) have d: "distinct (map fst nodes1)" by (simp add: enumerates_def)
  have tn: "b_treeNodes b = treeNodes1 R C trace nodes1" by (rule build_Some(3) [OF assms(2)])
  have ro: "b_root b = 0" "b_orphaned b = 1" by (rule build_Some(1,2) [OF assms(2)])+
  from build_record_node [OF d assms(2,3)]
  obtain a where a: "b_treeNodes b nid = Some a" "2 \<le> a" "a < length (b_store b)" by auto
  have t: "target 1 (b_treeNodes b) (nid, node) < length (b_store b)"
    using target_range [OF assms(2), of "(nid, node)"] by (simp add: build_length [OF assms(2)])
  have 1: "Some a \<in> set (Items (b_store b) (Some q)) \<longleftrightarrow>
           q = target (b_orphaned b) (b_treeNodes b) (nid, node)" for q
  proof (cases "q < length (b_store b)")
    case True
    from build_placed [OF assms(1,2,3) True] a(1) show ?thesis by (auto simp: ro)
  next
    case False
    with t show ?thesis by (auto simp: Items_def ro)
  qed
  have 2: "distinct (Items (b_store b) (Some q))" for q
    by (rule build_Items_distinct [OF assms(1,2)])
  have 3: "Some a \<in> set (Items (b_store b) (Some (b_orphaned b))) \<longleftrightarrow>
           b_treeNodes b (parentKey nid node) = None"
    using 1 [of "b_orphaned b"] target_orphaned [OF assms(2), of "(nid, node)"]
    by (auto simp: ro)
  have 4: "reach (b_store b) (b_root b) a \<longleftrightarrow> anchored trace nodes1 nid"
    if r: "rootKey trace \<notin> fst ` set nodes1"
  proof
    assume "reach (b_store b) (b_root b) a"
    with reach_anchored [OF assms(1,2), of a] a(2)
    obtain x where x: "x \<in> set nodes1" "b_treeNodes b (fst x) = Some a"
      "anchored trace nodes1 (fst x)" by (auto simp: ro)
    from x(2) a(1) have "treeNodes1 R C trace nodes1 (fst x)
        = treeNodes1 R C trace nodes1 (fst (nid, node))" by (simp add: tn)
    from treeNodes1_inj [OF d x(1) assms(3) this] x(3)
    show "anchored trace nodes1 nid" by auto
  next
    assume "anchored trace nodes1 nid"
    from anchored_reach [OF assms(1,2) r this] a(1)
    show "reach (b_store b) (b_root b) a" by (simp add: ro)
  qed
  show ?thesis
  proof (intro exI [of _ a] conjI allI impI)
    show "b_treeNodes b nid = Some a" by (rule a(1))
  next
    fix q
    show "Some a \<in> set (Items (b_store b) (Some q)) \<longleftrightarrow>
          q = target (b_orphaned b) (b_treeNodes b) (nid, node)" by (rule 1)
  next
    fix q
    show "distinct (Items (b_store b) (Some q))" by (rule 2)
  next
    show "Some a \<in> set (Items (b_store b) (Some (b_orphaned b))) \<longleftrightarrow>
          b_treeNodes b (parentKey nid node) = None" by (rule 3)
  next
    assume "rootKey trace \<notin> fst ` set nodes1"
    then show "reach (b_store b) (b_root b) a \<longleftrightarrow> anchored trace nodes1 nid" by (rule 4)
  qed
qed

theorem record_placement_witness:
  "enumerates ex_trace ex_trace \<and>
   build mark mark ''T'' False ex_trace ex_trace = Some (built_of ex_trace) \<and>
   mkRecord ''T'' ''s1'' ''t1'' ''db'' [] False \<in> set ex_trace \<and>
   rootKey ''T'' \<notin> fst ` set ex_trace \<and>
   anchored ''T'' ex_trace \<lparr>traceID = ''T'', spanID = ''s1''\<rparr> \<and>
   b_treeNodes (built_of ex_trace) \<lparr>traceID = ''T'', spanID = ''s1''\<rparr> = Some 3 \<and>
   reach (b_store (built_of ex_trace)) (b_root (built_of ex_trace)) 3 \<and>
   Some 3 \<notin> set (Items (b_store (built_of ex_trace)) (Some (b_orphaned (built_of ex_trace))))"
proof -
  have m1: "(\<lparr>traceID = ''T'', spanID = ''t1''\<rparr>,
             \<lparr>parentID = [], name = ''op1'', type_ = ''request'', service = ''svc-a'',
              result = ''200'', transaction = True\<rparr>) \<in> set ex_trace"
    and m2: "(\<lparr>traceID = ''T'', spanID = ''s1''\<rparr>,
             \<lparr>parentID = ''t1'', name = ''db'', type_ = ''request'', service = ''svc-a'',
              result = [], transaction = False\<rparr>) \<in> set ex_trace"
    by (simp_all add: ex_trace_def mkRecord_def)
  have r: "rootKey ''T'' \<notin> fst ` set ex_trace"
    by (simp add: ex_trace_def mkRecord_def rootKey_def)
  have "anchored ''T'' ex_trace \<lparr>traceID = ''T'', spanID = ''t1''\<rparr>"
    by (rule anchored_root [OF m1]) (simp add: parentKey_def rootKey_def)
  then have an: "anchored ''T'' ex_trace \<lparr>traceID = ''T'', spanID = ''s1''\<rparr>"
    by (intro anchored_child [OF m2]) (simp add: parentKey_def)
  from record_placement [OF ex_enumerates(4) built_of_Some m2] r an
  show ?thesis
    by (auto simp: built_of_Some ex_enumerates built_of_ex_trace(2-) mkRecord_def
          target_def parentKey_def m2)
qed

text \<open>
  The claim as stated fails for two spans that name each other as parent: each is placed
  under its resolved parent, neither is under \<open>orphaned\<close>, and neither is reachable
  from the root.
\<close>

theorem placement_counterexample:
  "build mark mark ''T'' False ex_cycle ex_cycle = Some (built_of ex_cycle) \<and>
   mkRecord ''T'' ''a'' ''b'' ''ping'' [] False \<in> set ex_cycle \<and>
   b_treeNodes (built_of ex_cycle) \<lparr>traceID = ''T'', spanID = ''a''\<rparr> = Some 2 \<and>
   Some 2 \<in> set (Items (b_store (built_of ex_cycle))
                   (b_treeNodes (built_of ex_cycle) \<lparr>traceID = ''T'', spanID = ''b''\<rparr>)) \<and>
   Some 2 \<notin> set (Items (b_store (built_of ex_cycle))
                   (Some (b_orphaned (built_of ex_cycle)))) \<and>
   \<not> reach (b_store (built_of ex_cycle)) (b_root (built_of ex_cycle)) 2"
proof -
  have "Items (b_store (built_of ex_cycle)) (Some 0) = []"
    by (simp add: built_of_ex_cycle Items_def)
  then have "\<not> reach (b_store (built_of ex_cycle)) 0 2"
    using reach_childless [of "b_store (built_of ex_cycle)" 0 2] by auto
  moreover have "mkRecord ''T'' ''a'' ''b'' ''ping'' [] False \<in> set ex_cycle"
    by (simp add: ex_cycle_def)
  ultimately show ?thesis
    by (simp add: built_of_Some built_of_ex_cycle Items_def)
qed

subsection \<open>C2\<close>

text \<open>
  C2 (amended). A record whose parent identity is its own identity resolves to its own
  node, which the first loop has already stored: in a completed build the node is a
  child of itself, and it is neither under \<open>orphaned\<close> nor under the root.
\<close>

theorem self_parent_attached:
  assumes "enumerates nodes1 nodes2"
    and "build R C trace rr nodes1 nodes2 = Some b"
    and "(nid, node) \<in> set nodes1"
    and "parentID node = spanID nid"
  shows "b_treeNodes b nid \<in> set (Items (b_store b) (b_treeNodes b nid)) \<and>
         b_treeNodes b nid \<notin> set (Items (b_store b) (Some (b_orphaned b))) \<and>
         b_treeNodes b nid \<notin> set (Items (b_store b) (Some (b_root b)))"
proof -
  from assms(1) have d: "distinct (map fst nodes1)" by (simp add: enumerates_def)
  from assms(4) have pk: "parentKey nid node = nid" by (simp add: parentKey_def)
  from build_record_node [OF d assms(2,3)]
  obtain a where a: "b_treeNodes b nid = Some a" "2 \<le> a" "a < length (b_store b)" by auto
  then have len: "0 < length (b_store b)" "1 < length (b_store b)" by linarith+
  from a(1) pk have t: "target 1 (b_treeNodes b) (nid, node) = a" by (simp add: target_def)
  from build_placed [OF assms(1,2,3) a(3)] build_placed [OF assms(1,2,3) len(1)]
    build_placed [OF assms(1,2,3) len(2)] t a
  show ?thesis by (simp add: build_Some(1,2) [OF assms(2)])
qed

theorem self_parent_attached_witness:
  "enumerates ex_self ex_self \<and>
   build mark mark ''T'' False ex_self ex_self = Some (built_of ex_self) \<and>
   mkRecord ''T'' ''a'' ''a'' ''loop'' [] False \<in> set ex_self \<and>
   b_treeNodes (built_of ex_self) \<lparr>traceID = ''T'', spanID = ''a''\<rparr>
     \<in> set (Items (b_store (built_of ex_self))
              (b_treeNodes (built_of ex_self) \<lparr>traceID = ''T'', spanID = ''a''\<rparr>)) \<and>
   b_treeNodes (built_of ex_self) \<lparr>traceID = ''T'', spanID = ''a''\<rparr>
     \<notin> set (Items (b_store (built_of ex_self)) (Some (b_orphaned (built_of ex_self))))"
proof -
  have m: "(\<lparr>traceID = ''T'', spanID = ''a''\<rparr>,
            \<lparr>parentID = ''a'', name = ''loop'', type_ = ''request'', service = ''svc-a'',
             result = [], transaction = False\<rparr>) \<in> set ex_self"
    by (simp add: ex_self_def mkRecord_def)
  from self_parent_attached [OF ex_enumerates(1) built_of_Some m] m
  show ?thesis by (simp add: built_of_Some ex_enumerates mkRecord_def)
qed

text \<open>
  The claim as stated fails for a single span \<open>a\<close> with parent \<open>a\<close>: the orphan
  collection stays empty and the node is its own only child.
\<close>

theorem self_parent_counterexample:
  "build mark mark ''T'' False ex_self ex_self = Some (built_of ex_self) \<and>
   mkRecord ''T'' ''a'' ''a'' ''loop'' [] False \<in> set ex_self \<and>
   Items (b_store (built_of ex_self)) (Some (b_orphaned (built_of ex_self))) = [] \<and>
   Items (b_store (built_of ex_self))
     (b_treeNodes (built_of ex_self) \<lparr>traceID = ''T'', spanID = ''a''\<rparr>)
   = [b_treeNodes (built_of ex_self) \<lparr>traceID = ''T'', spanID = ''a''\<rparr>]"
proof -
  have "mkRecord ''T'' ''a'' ''a'' ''loop'' [] False \<in> set ex_self"
    by (simp add: ex_self_def)
  then show ?thesis by (simp add: built_of_Some built_of_ex_self Items_def)
qed

subsection \<open>C3\<close>

text \<open>
  C3 (the code departs from the claim). Without \<open>recentRequest\<close>, against a backend
  that has no document of the trace, the count of every fetch equals the stored count
  \<open>0\<close>: the inner loop never breaks, so the run fetches again and again, never builds
  or prints and never ends, whatever the number of passes allowed.
\<close>

theorem one_shot_no_hits_never_builds:
  "main w_no_hits 0 ''T'' pollDuration start fuel = None"
  using one_shot_unchanged_count [of w_no_hits "[]"
          "\<lparr>now = start, fetched = 0, lastNodeCount = 0, events = []\<rparr>" "''T''" 0 fuel]
  by (simp add: main_def fetchTrace_no_hits)

subsection \<open>C4\<close>

text \<open>
  C4 (amended). With \<open>recentRequest\<close>, a sleep of five seconds comes directly before
  every fetch (the first, the one after an unchanged count, the one after a print and
  the one after an abandoned build alike), it begins only when the deadline check
  before it found the deadline not reached, and nothing else sleeps. After an abandoned
  build the run goes back to the deadline check and sleeps before it fetches again.
\<close>

theorem polling_sleeps:
  assumes "main_loop w trace True deadline fuel s = Some (out, s')"
  shows "\<exists>es. events s' = events s @ es \<and> sleeps_ok deadline es"
  using assms
proof (induction fuel arbitrary: s)
  case 0
  then show ?case by simp
next
  case (Suc fuel)
  let ?s2 = "after_fetch w True s"
  have ev: "events ?s2 = events s @ [Sleep (now s) (5 * second), Fetch (fetched s)]"
    by (simp add: after_fetch_def)
  show ?case
  proof (cases "now s < deadline")
    case False
    with Suc.prems have "s' = s" by (simp add: main_loop_step del: main_loop.simps)
    then show ?thesis by simp
  next
    case True
    show ?thesis
    proof (cases "fetchTrace (w_msearch w (fetched s))")
      case (Inl err)
      with Suc.prems True have "s' = ?s2" by (simp add: main_loop_step del: main_loop.simps)
      with ev True show ?thesis by simp
    next
      case (Inr ns)
      show ?thesis
      proof (cases "length ns = lastNodeCount s")
        case same: True
        with Suc.prems True Inr have "main_loop w trace True deadline fuel ?s2 = Some (out, s')"
          by (simp add: main_loop_step del: main_loop.simps)
        from Suc.IH [OF this] obtain es where "events s' = events ?s2 @ es"
          "sleeps_ok deadline es" by auto
        with ev True show ?thesis by simp
      next
        case changed: False
        show ?thesis
        proof (cases "build (w_RedString w) (w_CyanString w) trace True ns ns")
          case None
          let ?s3 = "?s2\<lparr>lastNodeCount := length ns, events := events ?s2 @ [Restart]\<rparr>"
          from Suc.prems True Inr changed None
          have "main_loop w trace True deadline fuel ?s3 = Some (out, s')"
            by (simp add: main_loop_step del: main_loop.simps)
          from Suc.IH [OF this] obtain es where "events s' = events ?s3 @ es"
            "sleeps_ok deadline es" by auto
          with ev True show ?thesis by simp
        next
          case (Some b)
          let ?s4 = "after_render b (?s2\<lparr>lastNodeCount := length ns\<rparr>)"
          from Suc.prems True Inr changed Some
          have "main_loop w trace True deadline fuel ?s4 = Some (out, s')"
            by (simp add: main_loop_step del: main_loop.simps)
          from Suc.IH [OF this] obtain es where "events s' = events ?s4 @ es"
            "sleeps_ok deadline es" by auto
          with ev True show ?thesis by (simp add: after_render_def)
        qed
      qed
    qed
  qed
qed

theorem polling_sleeps_witness:
  "main_loop w_late_parent ''T'' True (10 * second) 3
      \<lparr>now = 0, fetched = 0, lastNodeCount = 0, events = []\<rparr>
     = Some (DeadlineReturn,
             \<lparr>now = 10 * second, fetched = 2, lastNodeCount = 2,
              events = [Sleep 0 (5 * second), Fetch 0, Restart,
                        Sleep (5 * second) (5 * second), Fetch 1,
                        Render [\<lparr>traceID = ''T'', spanID = ''t1''\<rparr>] []]\<rparr>) \<and>
   sleeps_ok (10 * second)
     [Sleep 0 (5 * second), Fetch 0, Restart, Sleep (5 * second) (5 * second), Fetch 1,
      Render [\<lparr>traceID = ''T'', spanID = ''t1''\<rparr>] []]"
proof -
  have run: "main_loop w_late_parent ''T'' True (10 * second) 3
      \<lparr>now = 0, fetched = 0, lastNodeCount = 0, events = []\<rparr>
     = Some (DeadlineReturn,
             \<lparr>now = 10 * second, fetched = 2, lastNodeCount = 2,
              events = [Sleep 0 (5 * second), Fetch 0, Restart,
                        Sleep (5 * second) (5 * second), Fetch 1,
                        Render [\<lparr>traceID = ''T'', spanID = ''t1''\<rparr>] []]\<rparr>)"
    using late_parent_run by (simp add: main_def w_late_parent_def)
  from polling_sleeps [OF run] run show ?thesis by simp
qed

text \<open>
  The claim as stated fails on the backend where the span arrives first: the run sleeps
  before its first fetch, when no count has been compared yet, and it sleeps again
  between the abandoned build and the second fetch.
\<close>

theorem restart_sleeps_counterexample:
  "main w_late_parent 1 [] (10 * second) 0 3 =
     Some (DeadlineReturn,
           \<lparr>now = 10 * second, fetched = 2, lastNodeCount = 2,
            events = [Sleep 0 (5 * second), Fetch 0, Restart,
                      Sleep (5 * second) (5 * second), Fetch 1,
                      Render [\<lparr>traceID = ''T'', spanID = ''t1''\<rparr>] []]\<rparr>)"
  by (rule late_parent_run)

subsection \<open>C5\<close>

text \<open>
  C5 (amended). With \<open>recentRequest\<close>, a deadline check that finds the clock at or past
  the deadline returns at once, whatever has happened before: the state, and so the list
  of events, is the one the check found, be it empty. Every run ends: when \<open>k\<close> sleeps
  of five seconds cover the time left to the deadline, \<open>k + 1\<close> passes suffice. A run
  ends only by the return of line 87, with the clock at or past the deadline, or by a
  fatal error.
\<close>

theorem deadline_return:
  "(\<not> now s < deadline \<longrightarrow>
      main_loop w trace True deadline (Suc fuel) s = Some (DeadlineReturn, s)) \<and>
   (deadline - now s \<le> int k * (5 * second) \<longrightarrow>
      (\<exists>out s'. main_loop w trace True deadline (Suc k) s = Some (out, s') \<and>
                (out = DeadlineReturn \<and> \<not> now s' < deadline \<or> (\<exists>e. out = Fatal e)))) \<and>
   (\<forall>out s'. main_loop w trace True deadline n s = Some (out, s') \<longrightarrow>
      (out = DeadlineReturn \<and> \<not> now s' < deadline \<or> (\<exists>e. out = Fatal e)))"
proof (intro conjI impI allI)
  assume "\<not> now s < deadline"
  then show "main_loop w trace True deadline (Suc fuel) s = Some (DeadlineReturn, s)"
    by simp
next
  assume "deadline - now s \<le> int k * (5 * second)"
  from polling_terminates [OF this, of w trace]
  obtain out s' where r: "main_loop w trace True deadline (Suc k) s = Some (out, s')"
    by (cases "main_loop w trace True deadline (Suc k) s") auto
  from polling_outcome [OF r] r
  show "\<exists>out s'. main_loop w trace True deadline (Suc k) s = Some (out, s') \<and>
          (out = DeadlineReturn \<and> \<not> now s' < deadline \<or> (\<exists>e. out = Fatal e))"
    by blast
next
  fix out s'
  assume "main_loop w trace True deadline n s = Some (out, s')"
  then show "out = DeadlineReturn \<and> \<not> now s' < deadline \<or> (\<exists>e. out = Fatal e)"
    by (rule polling_outcome)
qed

theorem deadline_return_witness:
  "\<not> now \<lparr>now = 9, fetched = 0, lastNodeCount = 0, events = []\<rparr> < 7 \<and>
   main_loop w_late_parent ''T'' True 7 (Suc 0)
      \<lparr>now = 9, fetched = 0, lastNodeCount = 0, events = []\<rparr>
     = Some (DeadlineReturn, \<lparr>now = 9, fetched = 0, lastNodeCount = 0, events = []\<rparr>) \<and>
   main w_late_parent 1 [] (- 2) 9 (Suc 0) =
     Some (DeadlineReturn, \<lparr>now = 9, fetched = 0, lastNodeCount = 0, events = []\<rparr>) \<and>
   10 * second - now \<lparr>now = 0, fetched = 0, lastNodeCount = 0, events = []\<rparr>
     \<le> int 2 * (5 * second) \<and>
   main_loop w_no_hits ''T'' True (10 * second) (Suc 2)
      \<lparr>now = 0, fetched = 0, lastNodeCount = 0, events = []\<rparr>
     = Some (DeadlineReturn,
             \<lparr>now = 10 * second, fetched = 2, lastNodeCount = 0,
              events = [Sleep 0 (5 * second), Fetch 0,
                        Sleep (5 * second) (5 * second), Fetch 1]\<rparr>) \<and>
   \<not> now \<lparr>now = 10 * second, fetched = 2, lastNodeCount = 0,
            events = [Sleep 0 (5 * second), Fetch 0,
                      Sleep (5 * second) (5 * second), Fetch 1]\<rparr> < 10 * second"
proof -
  let ?s9 = "\<lparr>now = 9, fetched = 0, lastNodeCount = 0, events = []\<rparr>"
  let ?s0 = "\<lparr>now = 0, fetched = 0, lastNodeCount = 0, events = []\<rparr>"
  have late: "\<not> now ?s9 < 7" by simp
  have bound: "10 * second - now ?s0 \<le> int 2 * (5 * second)" by (simp add: second_def)
  have run: "main_loop w_no_hits ''T'' True (10 * second) (Suc 2) ?s0
     = Some (DeadlineReturn,
             \<lparr>now = 10 * second, fetched = 2, lastNodeCount = 0,
              events = [Sleep 0 (5 * second), Fetch 0,
                        Sleep (5 * second) (5 * second), Fetch 1]\<rparr>)"
    by code_simp
  from deadline_return [of ?s9 7 w_late_parent "''T''" 0 0 "Suc 0"]
       deadline_return [of ?s0 "10 * second" w_no_hits "''T''" 0 2 "Suc 2"]
       late bound run
  show ?thesis by (simp add: main_def w_late_parent_def)
qed

text \<open>
  The claim as stated fails on the backend with no document of the trace and a poll
  duration of ten seconds: two fetches return the count \<open>0\<close>, nothing is built or
  printed, and the run returns at the deadline.
\<close>

theorem deadline_without_render_counterexample:
  "main w_no_hits 1 [] (10 * second) 0 3 =
     Some (DeadlineReturn,
           \<lparr>now = 10 * second, fetched = 2, lastNodeCount = 0,
            events = [Sleep 0 (5 * second), Fetch 0,
                      Sleep (5 * second) (5 * second), Fetch 1]\<rparr>) \<and>
   renders [Sleep 0 (5 * second), Fetch 0, Sleep (5 * second) (5 * second), Fetch 1] = 0"
  using no_hits_run by (simp add: renders_def)

subsection \<open>C6\<close>

text \<open>
  C6 (amended). A record with an empty \<open>parentID\<close> whose trace is the queried trace is,
  in a completed build, a child of the root, provided no record of the set has the key
  of the root (the queried trace with an empty span identifier), which would replace the
  root in \<open>treeNodes\<close>.
\<close>

theorem empty_parent_under_root:
  assumes "enumerates nodes1 nodes2"
    and "build R C trace rr nodes1 nodes2 = Some b"
    and "(nid, node) \<in> set nodes1"
    and "parentID node = []"
    and "traceID nid = trace"
    and "rootKey trace \<notin> fst ` set nodes1"
  shows "b_treeNodes b nid \<in> set (Items (b_store b) (Some (b_root b)))"
proof -
  from assms(1) have d: "distinct (map fst nodes1)" by (simp add: enumerates_def)
  have len: "0 < length (b_store b)" by (simp add: build_length [OF assms(2)])
  from assms(4,5) have "parentKey nid node = rootKey trace"
    by (simp add: parentKey_def rootKey_def)
  with treeNodes1_root [OF d, of R C trace "rootKey trace"] assms(6)
  have "b_treeNodes b (parentKey nid node) = Some 0"
    by (simp add: build_Some(3) [OF assms(2)])
  then have "target 1 (b_treeNodes b) (nid, node) = 0" by (simp add: target_def)
  with build_placed [OF assms(1,2,3) len] show ?thesis
    by (simp add: build_Some(1) [OF assms(2)])
qed

theorem empty_parent_under_root_witness:
  "enumerates ex_trace ex_trace \<and>
   build mark mark ''T'' False ex_trace ex_trace = Some (built_of ex_trace) \<and>
   mkRecord ''T'' ''t1'' [] ''op1'' ''200'' True \<in> set ex_trace \<and>
   rootKey ''T'' \<notin> fst ` set ex_trace \<and>
   b_treeNodes (built_of ex_trace) \<lparr>traceID = ''T'', spanID = ''t1''\<rparr>
     \<in> set (Items (b_store (built_of ex_trace)) (Some (b_root (built_of ex_trace))))"
proof -
  have m: "(\<lparr>traceID = ''T'', spanID = ''t1''\<rparr>,
             \<lparr>parentID = [], name = ''op1'', type_ = ''request'', service = ''svc-a'',
              result = ''200'', transaction = True\<rparr>) \<in> set ex_trace"
    by (simp add: ex_trace_def mkRecord_def)
  have r: "rootKey ''T'' \<notin> fst ` set ex_trace"
    by (simp add: ex_trace_def mkRecord_def rootKey_def)
  from empty_parent_under_root [OF ex_enumerates(4) built_of_Some m _ _ r] m r
  show ?thesis by (simp add: built_of_Some ex_enumerates mkRecord_def)
qed

text \<open>
  The claim as stated fails for a record of another trace: its empty \<open>parentID\<close> is
  looked up under its own trace, the root has no child and the record is under
  \<open>orphaned\<close>. It fails as well when a record of the queried trace has an empty span
  identifier: that record takes the place of the root in \<open>treeNodes\<close>, and the root has
  no child.
\<close>

theorem empty_parent_counterexample:
  "build mark mark ''T'' False ex_foreign ex_foreign = Some (built_of ex_foreign) \<and>
   mkRecord ''U'' ''u1'' [] ''other'' [] True \<in> set ex_foreign \<and>
   Items (b_store (built_of ex_foreign)) (Some (b_root (built_of ex_foreign))) = [] \<and>
   Items (b_store (built_of ex_foreign)) (Some (b_orphaned (built_of ex_foreign)))
   = [b_treeNodes (built_of ex_foreign) \<lparr>traceID = ''U'', spanID = ''u1''\<rparr>] \<and>
   build mark mark ''T'' False ex_root_keyed ex_root_keyed = Some (built_of ex_root_keyed) \<and>
   mkRecord ''T'' ''c'' [] ''kid'' [] False \<in> set ex_root_keyed \<and>
   Items (b_store (built_of ex_root_keyed)) (Some (b_root (built_of ex_root_keyed))) = []"
proof -
  have "mkRecord ''U'' ''u1'' [] ''other'' [] True \<in> set ex_foreign"
    by (simp add: ex_foreign_def)
  moreover have "mkRecord ''T'' ''c'' [] ''kid'' [] False \<in> set ex_root_keyed"
    by (simp add: ex_root_keyed_def)
  ultimately show ?thesis
    by (simp add: built_of_Some built_of_ex_foreign built_of_ex_root_keyed Items_def)
qed

subsection \<open>C7\<close>

text \<open>
  C7. In a completed build a record's identity is in \<open>rootTransactions\<close> exactly when
  the record is a transaction and its node is a child of the root.
\<close>

theorem root_transactions_iff:
  assumes "enumerates nodes1 nodes2"
    and "build R C trace rr nodes1 nodes2 = Some b"
    and "(nid, node) \<in> set nodes1"
  shows "nid \<in> set (b_rootTransactions b) \<longleftrightarrow>
         transaction node \<and>
         b_treeNodes b nid \<in> set (Items (b_store b) (Some (b_root b)))"
proof -
  from assms(1) have d: "distinct (map fst nodes1)" and s: "set nodes2 = set nodes1"
    by (simp_all add: enumerates_def)
  have len: "0 < length (b_store b)" by (simp add: build_length [OF assms(2)])
  have "nid \<in> set (b_rootTransactions b) \<longleftrightarrow>
        (\<exists>v. (nid, v) \<in> set nodes1 \<and> transaction v \<and> target 1 (b_treeNodes b) (nid, v) = 0)"
    by (auto simp: build_rootTransactions [OF assms(2)] s image_iff)
  also have "\<dots> \<longleftrightarrow> transaction node \<and> target 1 (b_treeNodes b) (nid, node) = 0"
    using unique_details [OF d _ assms(3)] assms(3) by blast
  also have "\<dots> \<longleftrightarrow> transaction node \<and>
        b_treeNodes b nid \<in> set (Items (b_store b) (Some (b_root b)))"
    using build_placed [OF assms(1,2,3) len] by (simp add: build_Some(1) [OF assms(2)])
  finally show ?thesis .
qed

theorem root_transactions_iff_witness:
  "enumerates ex_trace ex_trace_rev \<and>
   build mark mark ''T'' False ex_trace ex_trace_rev
     = Some (the (build mark mark ''T'' False ex_trace ex_trace_rev)) \<and>
   mkRecord ''T'' ''t1'' [] ''op1'' ''200'' True \<in> set ex_trace \<and>
   \<lparr>traceID = ''T'', spanID = ''t1''\<rparr>
     \<in> set (b_rootTransactions (the (build mark mark ''T'' False ex_trace ex_trace_rev))) \<and>
   b_treeNodes (the (build mark mark ''T'' False ex_trace ex_trace_rev))
       \<lparr>traceID = ''T'', spanID = ''t1''\<rparr>
     \<in> set (Items (b_store (the (build mark mark ''T'' False ex_trace ex_trace_rev)))
              (Some (b_root (the (build mark mark ''T'' False ex_trace ex_trace_rev)))))"
proof -
  let ?b = "the (build mark mark ''T'' False ex_trace ex_trace_rev)"
  have m: "(\<lparr>traceID = ''T'', spanID = ''t1''\<rparr>,
            \<lparr>parentID = [], name = ''op1'', type_ = ''request'', service = ''svc-a'',
             result = ''200'', transaction = True\<rparr>) \<in> set ex_trace"
    by (simp add: ex_trace_def mkRecord_def)
  have r: "b_rootTransactions ?b = [\<lparr>traceID = ''T'', spanID = ''t1''\<rparr>]"
    by (simp add: build_def gotree_New_def ex_trace_def ex_trace_rev_def mkRecord_def
          parentKey_def addChild_def)
  from root_transactions_iff
         [OF ex_trace_enumerates build_the [of mark mark "''T''" ex_trace ex_trace_rev] m]
       r m ex_trace_enumerates
  show ?thesis by (simp add: build_the [symmetric] mkRecord_def)
qed

subsection \<open>C8\<close>

text \<open>
  C8. When a response of the fetch reports more total hits than it holds, \<open>fetchTrace\<close>
  yields no record set but an error, and the pass of \<open>main\<close> that makes this fetch ends
  the run with that error, without building or printing.
\<close>

theorem truncated_fetch_fatal:
  assumes "w_msearch w (fetched s) = Inr responses"
    and "r \<in> set responses"
    and "int (length (resp_Hits r)) < sint (resp_TotalHits r)"
    and "recentRequest \<longrightarrow> now s < deadline"
  shows "\<exists>e. fetchTrace (w_msearch w (fetched s)) = Inl e \<and>
             (\<exists>s'. main_loop w trace recentRequest deadline (Suc fuel) s = Some (Fatal e, s') \<and>
                   renders (events s') = renders (events s))"
proof -
  from addResponses_truncated [OF assms(2,3), of "[]"] assms(1)
  obtain e where e: "fetchTrace (w_msearch w (fetched s)) = Inl e"
    by (auto simp: fetchTrace_def)
  with assms(4)
  have "main_loop w trace recentRequest deadline (Suc fuel) s
          = Some (Fatal e, after_fetch w recentRequest s)"
    by (simp add: main_loop_step del: main_loop.simps)
  moreover have "renders (events (after_fetch w recentRequest s)) = renders (events s)"
    by (simp add: after_fetch_def renders_def)
  ultimately show ?thesis using e by blast
qed

theorem truncated_fetch_fatal_witness:
  "w_msearch w_truncated 0 =
     Inr [\<lparr>resp_Error = None, resp_TotalHits = 10001,
           resp_Hits = [txnDoc ''T'' ''t1'' [] ''op1'' ''200'']\<rparr>, resp []] \<and>
   int (length [txnDoc ''T'' ''t1'' [] ''op1'' ''200'']) < sint (10001 :: 64 word) \<and>
   fetchTrace (w_msearch w_truncated 0) = Inl TooManyHits \<and>
   main w_truncated 0 ''T'' (30 * second) 0 (Suc 0) =
     Some (Fatal TooManyHits, \<lparr>now = 0, fetched = 1, lastNodeCount = 0, events = [Fetch 0]\<rparr>)"
proof -
  let ?r = "\<lparr>resp_Error = None, resp_TotalHits = 10001,
             resp_Hits = [txnDoc ''T'' ''t1'' [] ''op1'' ''200'']\<rparr>"
  let ?s = "\<lparr>now = 0, fetched = 0, lastNodeCount = 0, events = []\<rparr>"
  have 1: "w_msearch w_truncated (fetched ?s) = Inr [?r, resp []]"
    by (simp add: w_truncated_def)
  have 2: "?r \<in> set [?r, resp []]" by simp
  have 3: "int (length (resp_Hits ?r)) < sint (resp_TotalHits ?r)" by simp
  have 4: "False \<longrightarrow> now ?s < 0" by simp
  have f: "fetchTrace (w_msearch w_truncated 0) = Inl TooManyHits"
    by (simp add: w_truncated_def fetchTrace_def)
  from truncated_fetch_fatal [OF 1 2 3 4, of "''T''" 0] f 1 3
  show ?thesis by (auto simp: main_def w_truncated_def fetchTrace_def)
qed

subsection \<open>C9\<close>

text \<open>
  C9. The label of a record's tree node is \<open>name (service)\<close>, followed by \<open> => result\<close>
  exactly when the result is not empty, and passed through the colour function exactly
  when the record is a transaction.
\<close>

theorem record_label:
  assumes "distinct (map fst nodes1)"
    and "build R C trace rr nodes1 nodes2 = Some b"
    and "(nid, node) \<in> set nodes1"
  shows "Text (b_store b) (b_treeNodes b nid) =
           (if transaction node then C else (\<lambda>s. s))
             (name node @ '' ('' @ service node @ '')'' @
              (if result node = [] then [] else '' => '' @ result node))"
proof -
  from build_record_node [OF assms(1,2,3)]
  obtain a where "b_treeNodes b nid = Some a" "a < length (b_store b)"
    "tree_text (b_store b ! a) = nodeText C node" by auto
  then show ?thesis by (simp add: Text_def nodeText_def)
qed

theorem record_label_witness:
  "distinct (map fst ex_trace) \<and>
   build mark mark ''T'' False ex_trace ex_trace_rev
     = Some (the (build mark mark ''T'' False ex_trace ex_trace_rev)) \<and>
   mkRecord ''T'' ''t1'' [] ''op1'' ''200'' True \<in> set ex_trace \<and>
   Text (b_store (the (build mark mark ''T'' False ex_trace ex_trace_rev)))
        (b_treeNodes (the (build mark mark ''T'' False ex_trace ex_trace_rev))
           \<lparr>traceID = ''T'', spanID = ''t1''\<rparr>)
     = ''<op1 (svc-a) => 200>''"
proof -
  have d: "distinct (map fst ex_trace)" by (simp add: ex_trace_def mkRecord_def)
  have m: "(\<lparr>traceID = ''T'', spanID = ''t1''\<rparr>,
            \<lparr>parentID = [], name = ''op1'', type_ = ''request'', service = ''svc-a'',
             result = ''200'', transaction = True\<rparr>) \<in> set ex_trace"
    by (simp add: ex_trace_def mkRecord_def)
  from record_label [OF d build_the m, of mark mark "''T''" ex_trace_rev] d m
  show ?thesis by (simp add: build_the [symmetric] mark_def mkRecord_def)
qed

subsection \<open>C10\<close>

text \<open>
  C10 (amended). For a record of another trace than the queried one with an empty
  \<open>parentID\<close>, provided no record of the set has that trace with an empty span
  identifier as its key: the parent lookup yields \<^verbatim>\<open>nil\<close>, with \<open>recentRequest\<close> the
  build is abandoned, and without it the record is under \<open>orphaned\<close> and not under
  the root.
\<close>

theorem foreign_trace_orphan:
  assumes "enumerates nodes1 nodes2"
    and "(nid, node) \<in> set nodes1"
    and "traceID nid \<noteq> trace"
    and "parentID node = []"
    and "rootKey (traceID nid) \<notin> fst ` set nodes1"
  shows "build R C trace True nodes1 nodes2 = None \<and>
         (\<exists>b. build R C trace False nodes1 nodes2 = Some b \<and>
              b_treeNodes b (parentKey nid node) = None \<and>
              b_treeNodes b nid \<in> set (Items (b_store b) (Some (b_orphaned b))) \<and>
              b_treeNodes b nid \<notin> set (Items (b_store b) (Some (b_root b))))"
proof -
  from assms(1) have s: "set nodes2 = set nodes1" by (simp add: enumerates_def)
  from assms(4) have pk: "parentKey nid node = rootKey (traceID nid)"
    by (simp add: parentKey_def rootKey_def)
  from assms(3) have "rootKey (traceID nid) \<noteq> rootKey trace" by (simp add: rootKey_def)
  with treeNodes1_other [OF assms(5), of R C trace]
  have none: "treeNodes1 R C trace nodes1 (parentKey nid node) = None" by (simp add: pk)
  from assms(2) s have "(nid, node) \<in> set nodes2" by simp
  from build_polling_None [OF this, of R C trace nodes1] none
  have 1: "build R C trace True nodes1 nodes2 = None" by simp
  obtain b where b: "build R C trace False nodes1 nodes2 = Some b"
    using build_one_shot [of R C trace nodes1 nodes2] by auto
  have tn: "b_treeNodes b = treeNodes1 R C trace nodes1" by (rule build_Some(3) [OF b])
  have len: "0 < length (b_store b)" "1 < length (b_store b)"
    by (simp_all add: build_length [OF b])
  from none have t: "target 1 (b_treeNodes b) (nid, node) = 1" by (simp add: target_def tn)
  from build_placed [OF assms(1) b assms(2) len(2)] t
  have 2: "b_treeNodes b nid \<in> set (Items (b_store b) (Some (b_orphaned b)))"
    by (simp add: build_Some(2) [OF b])
  from build_placed [OF assms(1) b assms(2) len(1)] t
  have 3: "b_treeNodes b nid \<notin> set (Items (b_store b) (Some (b_root b)))"
    by (simp add: build_Some(1) [OF b])
  from 1 b none 2 3 show ?thesis by (simp add: tn)
qed

theorem foreign_trace_orphan_witness:
  "enumerates ex_foreign ex_foreign \<and>
   mkRecord ''U'' ''u1'' [] ''other'' [] True \<in> set ex_foreign \<and>
   rootKey ''U'' \<notin> fst ` set ex_foreign \<and>
   build mark mark ''T'' True ex_foreign ex_foreign = None \<and>
   b_treeNodes (built_of ex_foreign) \<lparr>traceID = ''U'', spanID = ''u1''\<rparr>
     \<in> set (Items (b_store (built_of ex_foreign)) (Some (b_orphaned (built_of ex_foreign))))"
proof -
  have m: "(\<lparr>traceID = ''U'', spanID = ''u1''\<rparr>,
             \<lparr>parentID = [], name = ''other'', type_ = ''request'', service = ''svc-a'',
              result = [], transaction = True\<rparr>) \<in> set ex_foreign"
    by (simp add: ex_foreign_def mkRecord_def)
  have r: "rootKey ''U'' \<notin> fst ` set ex_foreign"
    by (simp add: ex_foreign_def mkRecord_def rootKey_def)
  from foreign_trace_orphan [OF ex_enumerates(3) m, of "''T''" mark mark] r m
  show ?thesis by (simp add: built_of_Some ex_enumerates mkRecord_def)
qed

text \<open>
  The claim as stated fails when the record's own span identifier is empty: the lookup
  finds the record itself, so nothing is orphaned and no build is abandoned.
\<close>

theorem foreign_trace_counterexample:
  "mkRecord ''U'' [] [] ''odd'' [] True \<in> set ex_foreign_root \<and>
   build mark mark ''T'' True ex_foreign_root ex_foreign_root \<noteq> None \<and>
   build mark mark ''T'' False ex_foreign_root ex_foreign_root
     = Some (built_of ex_foreign_root) \<and>
   b_treeNodes (built_of ex_foreign_root) \<lparr>traceID = ''U'', spanID = []\<rparr> = Some 2 \<and>
   Items (b_store (built_of ex_foreign_root)) (Some (b_orphaned (built_of ex_foreign_root)))
     = [] \<and>
   Items (b_store (built_of ex_foreign_root)) (Some 2) = [Some 2]"
proof -
  have "mkRecord ''U'' [] [] ''odd'' [] True \<in> set ex_foreign_root"
    by (simp add: ex_foreign_root_def)
  then show ?thesis by (simp add: built_of_Some built_of_ex_foreign_root Items_def)
qed

end
